theory Spec2Isabelle
  imports Complex_Main
begin

section \<open>Constants of \<open>piksi_tools/fileio.py\<close>\<close>

definition MAX_PAYLOAD_SIZE :: int where
  "MAX_PAYLOAD_SIZE = 255"

definition SBP_FILEIO_WINDOW_SIZE :: nat where
  "SBP_FILEIO_WINDOW_SIZE = 40"

definition SBP_FILEIO_TIMEOUT :: real where
  "SBP_FILEIO_TIMEOUT = 5.0"

definition MINIMUM_RETRIES :: int where
  "MINIMUM_RETRIES = 3"

section \<open>Messages, errors and Python slices\<close>

text \<open>
  The SBP message classes are imported by the source from the \<open>sbp\<close> package; only their
  fields are used.  Byte strings (Python 2 \<open>str\<close>, \<open>bytearray\<close>, and the lists of octets in
  \<open>contents\<close>) are \<open>string\<close>: one \<open>char\<close> per octet.  A selector applied to a message
  class without that field is an \<open>AttributeError\<close> in Python and unspecified here; the
  repeater is only ever handed read and write requests, and their replies.
\<close>

datatype msg =
    MsgFileioReadReq (sequence: int) (offset: int) (chunk_size: int) (filename: string)
  | MsgFileioWriteReq (sequence: int) (filename: string) (offset: int) (data: string)
  | MsgFileioReadDirReq (sequence: int) (offset: int) (dirname: string)
  | MsgFileioRemove (filename: string)
  | MsgFileioReadResp (sequence: int) (contents: string)
  | MsgFileioWriteResp (sequence: int)
  | MsgFileioReadDirResp (sequence: int) (contents: string)

datatype error =
    Timed_out
  | ReadDir_timeout
  | ReadDir_mismatch
  | IndexError
  | ValueError
  | TypeError
  | AttributeError
  | AssertionError

abbreviation NUL :: char where
  "NUL \<equiv> CHR 0x00"

text \<open>Python's \<open>xs[lo:hi]\<close>: a negative index counts from the end, and both are clamped.\<close>

definition py_index :: "nat \<Rightarrow> int \<Rightarrow> nat" where
  "py_index n i = (if i < 0 then nat (max (i + int n) 0) else min (nat i) n)"

definition py_slice :: "'a list \<Rightarrow> int \<Rightarrow> int \<Rightarrow> 'a list" where
  "py_slice xs lo hi =
     (let l = py_index (length xs) lo; h = py_index (length xs) hi
      in take (h - l) (drop l xs))"

text \<open>Python's \<open>xs[lo:hi] = ys\<close>.\<close>

definition py_slice_assign :: "'a list \<Rightarrow> int \<Rightarrow> int \<Rightarrow> 'a list \<Rightarrow> 'a list" where
  "py_slice_assign xs lo hi ys =
     (let l = py_index (length xs) lo; h = max l (py_index (length xs) hi)
      in take l xs @ ys @ drop h xs)"

section \<open>PendingWrite\<close>

text \<open>
  The four slots of a \<open>PendingWrite\<close>.  \<open>None\<close> is Python's \<open>None\<close> (after
  \<open>invalidate\<close>); the slots of a freshly constructed object, which are unset, are
  \<open>None\<close> as well.
\<close>

record pending_write =
  message :: "msg option"
  time :: "real option"
  tries :: "int option"
  complete :: "bool option"

definition invalidate :: "pending_write \<Rightarrow> pending_write" where
  "invalidate pw = pw\<lparr>message := None, time := None, tries := None, complete := None\<rparr>"

text \<open>\<open>track\<close> ignores its \<open>tries\<close> argument and stores 0; callers pass the default
  \<open>complete=False\<close>.\<close>

definition track :: "pending_write \<Rightarrow> msg \<Rightarrow> real \<Rightarrow> pending_write" where
  "track pw pending_write t =
     pw\<lparr>message := Some pending_write, time := Some t, tries := Some 0, complete := Some False\<rparr>"

definition record_retry :: "pending_write \<Rightarrow> real \<Rightarrow> error + pending_write" where
  "record_retry pw retry_time =
     (case tries pw of
        None \<Rightarrow> Inl TypeError
      | Some n \<Rightarrow> Inr (pw\<lparr>tries := Some (n + 1), time := Some retry_time\<rparr>))"

section \<open>The state of one file operation\<close>

text \<open>
  \<open>PendingWrite\<close> objects are mutable and shared between \<open>window\<close>, \<open>pending\<close> and the
  copies the loops iterate over, so the lists hold references and \<open>heap\<close> holds the
  objects.  The record has the fields of \<open>FileIO\<close> (\<open>seq\<close> is \<open>_seq\<close>) and of
  \<open>SelectiveRepeater\<close>, the closure of the session callback, and the environment:

  \<^item> \<open>sent\<close>: every message handed to \<open>link(...)\<close>, in order;
  \<^item> \<open>inbox\<close>: the replies the link will dispatch to the registered handler, in batches:
    one batch is handled each time the issuing thread blocks (in a transmission or in
    \<open>time.sleep\<close>); after the last batch nothing more arrives;
  \<^item> \<open>waits\<close>: what successive calls of \<open>link.wait\<close> return (\<open>None\<close>: timed out);
    after the last one every wait times out;
  \<^item> \<open>clock\<close>, \<open>ticks\<close>: the n-th call of \<open>time.time()\<close> returns \<open>clock n\<close>;
  \<^item> \<open>thread\<close>: the ident of the running thread; \<open>dispatcher\<close>: that of the thread
    on which the link runs handlers.
\<close>

type_synonym ref = nat

record 'c state =
  seq :: int
  window :: "ref list"
  pending :: "ref list"
  cb :: "(msg \<Rightarrow> msg \<Rightarrow> 'c \<Rightarrow> 'c) option"
  cb_thread :: "nat option"
  link_thread :: "nat option"
  heap :: "ref \<Rightarrow> pending_write"
  closure :: 'c
  sent :: "msg list"
  inbox :: "msg list list"
  waits :: "msg option list"
  clock :: "nat \<Rightarrow> real"
  ticks :: nat
  thread :: nat
  dispatcher :: nat

section \<open>SelectiveRepeater\<close>

text \<open>\<open>__init__\<close>: forty fresh objects in the window, nothing pending.\<close>

definition SelectiveRepeater :: "'c state \<Rightarrow> (msg \<Rightarrow> msg \<Rightarrow> 'c \<Rightarrow> 'c) option \<Rightarrow> 'c state" where
  "SelectiveRepeater s f =
     s\<lparr>window := [0 ..< SBP_FILEIO_WINDOW_SIZE],
       pending := [],
       cb := f,
       cb_thread := None,
       link_thread := None,
       heap := (\<lambda>r. \<lparr>message = None, time = None, tries = None, complete = None\<rparr>)\<rparr>"

definition verify_cb_thread :: "'c state \<Rightarrow> error + 'c state" where
  "verify_cb_thread s =
     (let s1 = (if cb_thread s = None then s\<lparr>cb_thread := Some (thread s)\<rparr> else s)
      in if cb_thread s1 = Some (thread s1) then Inr s1 else Inl AssertionError)"

definition verify_link_thread :: "'c state \<Rightarrow> error + 'c state" where
  "verify_link_thread s =
     (let s1 = (if link_thread s = None then s\<lparr>link_thread := Some (thread s)\<rparr> else s)
      in if link_thread s1 = Some (thread s1) then Inr s1 else Inl AssertionError)"

text \<open>\<open>self.pending.pop(self.pending.index(pending_write))\<close> removes the first occurrence
  and raises \<open>ValueError\<close> when there is none.\<close>

definition return_pending_write :: "'c state \<Rightarrow> ref \<Rightarrow> error + 'c state" where
  "return_pending_write s pending_write =
     (case verify_cb_thread s of
        Inl e \<Rightarrow> Inl e
      | Inr s1 \<Rightarrow>
          if pending_write \<in> set (pending s1) then
            Inr (s1\<lparr>pending := remove1 pending_write (pending s1),
                    window := window s1 @ [pending_write],
                    heap := (heap s1)(pending_write := invalidate (heap s1 pending_write))\<rparr>)
          else Inl ValueError)"

definition fetch_pending_write :: "'c state \<Rightarrow> msg \<Rightarrow> error + 'c state" where
  "fetch_pending_write s m =
     (case verify_link_thread s of
        Inl e \<Rightarrow> Inl e
      | Inr s1 \<Rightarrow>
          (case window s1 of
             [] \<Rightarrow> Inl IndexError
           | pending_write # rest \<Rightarrow>
               Inr (s1\<lparr>window := rest,
                       pending := pending s1 @ [pending_write],
                       heap := (heap s1)
                         (pending_write := track (heap s1 pending_write) m (clock s1 (ticks s1))),
                       ticks := Suc (ticks s1)\<rparr>)))"

definition window_available :: "'c state \<Rightarrow> bool" where
  "window_available s \<longleftrightarrow> length (window s) \<noteq> 0"

text \<open>
  \<open>_cb\<close>: the loop runs over a copy of \<open>pending\<close> and reads each object as it is when
  the loop reaches it.  \<open>if self.cb\<close> is true for any callback that was supplied.
\<close>

fun cb_loop :: "'c state \<Rightarrow> msg \<Rightarrow> ref list \<Rightarrow> error + 'c state" where
  "cb_loop s m [] = Inr s"
| "cb_loop s m (pending_write # rest) =
     (case message (heap s pending_write) of
        None \<Rightarrow> Inl AttributeError
      | Some req \<Rightarrow>
          if sequence m = sequence req then
            (let s1 = (case cb s of None \<Rightarrow> s | Some f \<Rightarrow> s\<lparr>closure := f req m (closure s)\<rparr>);
                 s2 = s1\<lparr>heap := (heap s1)
                        (pending_write := (heap s1 pending_write)\<lparr>complete := Some True\<rparr>)\<rparr>
             in case return_pending_write s2 pending_write of
                  Inl e \<Rightarrow> Inl e
                | Inr s3 \<Rightarrow> cb_loop s3 m rest)
          else cb_loop s m rest)"

definition sr_cb :: "'c state \<Rightarrow> msg \<Rightarrow> error + 'c state" where
  "sr_cb s m = cb_loop s m (pending s)"

text \<open>
  The handler thread: \<open>dispatch\<close> runs \<open>_cb\<close> on every reply of a batch, and \<open>blocked\<close>
  is what happens while the issuing thread is blocked: the next batch of \<open>inbox\<close> is
  dispatched on the dispatcher's thread.  An exception in the handler is reported as the
  error of the run.
\<close>

fun dispatch :: "'c state \<Rightarrow> msg list \<Rightarrow> error + 'c state" where
  "dispatch s [] = Inr s"
| "dispatch s (m # ms) =
     (case sr_cb s m of Inl e \<Rightarrow> Inl e | Inr s1 \<Rightarrow> dispatch s1 ms)"

definition blocked :: "'c state \<Rightarrow> error + 'c state" where
  "blocked s =
     (case inbox s of
        [] \<Rightarrow> Inr s
      | batch # later \<Rightarrow>
          (case dispatch (s\<lparr>inbox := later, thread := dispatcher s\<rparr>) batch of
             Inl e \<Rightarrow> Inl e
           | Inr s1 \<Rightarrow> Inr (s1\<lparr>thread := thread s\<rparr>)))"

text \<open>
  \<open>self.link(msg)\<close>: the message goes out.  \<open>transmit\<close> is the same call made by the
  repeater, whose handler \<open>__enter__\<close> registers for the replies of its message type and
  \<open>__exit__\<close> removes: the call blocks on the transport, so a batch of replies may be
  handled meanwhile.  Only the replies that reach the handler are in \<open>inbox\<close>.
\<close>

definition link :: "'c state \<Rightarrow> msg \<Rightarrow> 'c state" where
  "link s m = s\<lparr>sent := sent s @ [m]\<rparr>"

definition transmit :: "'c state \<Rightarrow> msg \<Rightarrow> error + 'c state" where
  "transmit s m = blocked (link s m)"

definition sleep :: "'c state \<Rightarrow> error + 'c state" where
  "sleep s = blocked s"

text \<open>
  \<open>_check_pending\<close>: \<open>check_entry\<close> is the body of the loop for one object of the copy
  of \<open>pending\<close>.  \<open>None\<close> is false in \<open>if pending_write.complete\<close>; subtracting \<open>None\<close>
  from a float, or adding 1 to it, raises \<open>TypeError\<close>.
\<close>

definition check_entry :: "'c state \<Rightarrow> ref \<Rightarrow> error + 'c state" where
  "check_entry s pending_write =
     (if complete (heap s pending_write) = Some True then Inr s
      else
        let tnow = clock s (ticks s);
            s1 = s\<lparr>ticks := Suc (ticks s)\<rparr>
        in case time (heap s1 pending_write) of
             None \<Rightarrow> Inl TypeError
           | Some t \<Rightarrow>
               if tnow - t > SBP_FILEIO_TIMEOUT then
                 (case tries (heap s1 pending_write) of
                    None \<Rightarrow> Inl TypeError
                  | Some n \<Rightarrow>
                      if n \<ge> MINIMUM_RETRIES then Inl Timed_out
                      else
                        (case record_retry (heap s1 pending_write) tnow of
                           Inl e \<Rightarrow> Inl e
                         | Inr pw \<Rightarrow>
                             (case message pw of
                                None \<Rightarrow> Inl TypeError
                              | Some req \<Rightarrow>
                                  transmit (s1\<lparr>heap := (heap s1)(pending_write := pw)\<rparr>) req)))
               else Inr s1)"

fun check_loop :: "'c state \<Rightarrow> ref list \<Rightarrow> error + 'c state" where
  "check_loop s [] = Inr s"
| "check_loop s (pending_write # rest) =
     (case check_entry s pending_write of
        Inl e \<Rightarrow> Inl e
      | Inr s1 \<Rightarrow> check_loop s1 rest)"

definition check_pending :: "'c state \<Rightarrow> error + 'c state" where
  "check_pending s = check_loop s (pending s)"

text \<open>The polling loops may run forever: \<open>None\<close> is a run that does not return.\<close>

partial_function (option) wait_window_available :: "'c state \<Rightarrow> (error + 'c state) option" where
  "wait_window_available s =
     (if \<not> window_available s then
        (case check_pending s of
           Inl e \<Rightarrow> Some (Inl e)
         | Inr s1 \<Rightarrow>
             if \<not> window_available s1 then
               (case sleep s1 of
                  Inl e \<Rightarrow> Some (Inl e)
                | Inr s2 \<Rightarrow> wait_window_available s2)
             else wait_window_available s1)
      else Some (Inr s))"

definition send :: "'c state \<Rightarrow> msg \<Rightarrow> (error + 'c state) option" where
  "send s m =
     (case wait_window_available s of
        None \<Rightarrow> None
      | Some (Inl e) \<Rightarrow> Some (Inl e)
      | Some (Inr s1) \<Rightarrow>
          (case fetch_pending_write s1 m of
             Inl e \<Rightarrow> Some (Inl e)
           | Inr s2 \<Rightarrow> Some (transmit s2 m)))"

partial_function (option) flush :: "'c state \<Rightarrow> (error + 'c state) option" where
  "flush s =
     (if length (pending s) > 0 then
        (case check_pending s of
           Inl e \<Rightarrow> Some (Inl e)
         | Inr s1 \<Rightarrow>
             (case sleep s1 of
                Inl e \<Rightarrow> Some (Inl e)
              | Inr s2 \<Rightarrow> flush s2))
      else Some (Inr s))"

section \<open>FileIO\<close>

text \<open>
  \<open>random.randint(a, b)\<close> returns some integer of the closed range; \<open>entropy\<close> selects
  which.  Python integers are unbounded, so \<open>seq\<close> is an \<open>int\<close>.
\<close>

definition randint :: "int \<Rightarrow> int \<Rightarrow> nat \<Rightarrow> int" where
  "randint a b entropy = a + int entropy mod (b - a + 1)"

definition FileIO :: "'c state \<Rightarrow> nat \<Rightarrow> 'c state" where
  "FileIO s entropy = s\<lparr>seq := randint 0 0xffffffff entropy\<rparr>"

definition next_seq :: "'c state \<Rightarrow> int \<times> 'c state" where
  "next_seq s = (seq s + 1, s\<lparr>seq := seq s + 1\<rparr>)"

subsection \<open>read\<close>

record read_closure =
  closure_done :: bool
  closure_buf :: string

text \<open>The callback \<open>cb(req, resp)\<close> defined inside \<open>read\<close>; \<open>[0] * n\<close> is n zero octets.\<close>

definition read_cb :: "msg \<Rightarrow> msg \<Rightarrow> read_closure \<Rightarrow> read_closure" where
  "read_cb req resp c =
     (let b1 = (if int (length (closure_buf c)) < offset req
                then closure_buf c @ replicate (nat (offset req - int (length (closure_buf c)))) NUL
                else closure_buf c);
          b2 = py_slice_assign b1 (offset req) (offset req + int (length (contents resp)))
                 (contents resp)
      in \<lparr>closure_done = (if chunk_size req \<noteq> int (length (contents resp)) then True
                          else closure_done c),
          closure_buf = b2\<rparr>)"

partial_function (option) read_loop ::
  "read_closure state \<Rightarrow> string \<Rightarrow> int \<Rightarrow> int \<Rightarrow> (error + read_closure state) option" where
  "read_loop s fname ofs chunksize =
     (if \<not> closure_done (closure s) then
        (case next_seq s of
           (q, s1) \<Rightarrow>
             (case send s1 (MsgFileioReadReq q ofs chunksize fname) of
                None \<Rightarrow> None
              | Some (Inl e) \<Rightarrow> Some (Inl e)
              | Some (Inr s2) \<Rightarrow> read_loop s2 fname (ofs + chunksize) chunksize))
      else Some (Inr s))"

text \<open>\<open>read\<close> returns \<open>bytearray(closure['buf'])\<close> as soon as the loop ends.\<close>

definition read :: "read_closure state \<Rightarrow> string \<Rightarrow> (error + string \<times> read_closure state) option" where
  "read s fname =
     (let chunksize = MAX_PAYLOAD_SIZE - 4;
          sr = (SelectiveRepeater s (Some read_cb))
                 \<lparr>closure := \<lparr>closure_done = False, closure_buf = []\<rparr>\<rparr>
      in case read_loop sr fname 0 chunksize of
           None \<Rightarrow> None
         | Some (Inl e) \<Rightarrow> Some (Inl e)
         | Some (Inr s1) \<Rightarrow> Some (Inr (closure_buf (closure s1), s1)))"

subsection \<open>readdir\<close>

text \<open>\<open>s.rstrip(c)\<close> and \<open>s.split(c)\<close> of Python, for a one-character argument.\<close>

definition str_rstrip :: "char \<Rightarrow> string \<Rightarrow> string" where
  "str_rstrip c xs = rev (dropWhile (\<lambda>x. x = c) (rev xs))"

fun str_split :: "char \<Rightarrow> string \<Rightarrow> string list" where
  "str_split c [] = [[]]"
| "str_split c (x # xs) =
     (if x = c then [] # str_split c xs
      else (case str_split c xs of
              [] \<Rightarrow> [[x]]
            | w # ws \<Rightarrow> (x # w) # ws))"

text \<open>\<open>self.link.wait(SBP_MSG_FILEIO_READ_DIR_RESP, timeout=1.0)\<close>.\<close>

definition wait :: "'c state \<Rightarrow> msg option \<times> 'c state" where
  "wait s = (case waits s of [] \<Rightarrow> (None, s) | r # rest \<Rightarrow> (r, s\<lparr>waits := rest\<rparr>))"

function readdir_loop ::
  "'c state \<Rightarrow> string \<Rightarrow> string list \<Rightarrow> error + string list \<times> 'c state" where
  "readdir_loop s dname files =
     (case next_seq s of
        (q, s1) \<Rightarrow>
          (case wait (link s1 (MsgFileioReadDirReq q (int (length files)) dname)) of
             (None, s2) \<Rightarrow> Inl ReadDir_timeout
           | (Some reply, s2) \<Rightarrow>
               if sequence reply \<noteq> q then Inl ReadDir_mismatch
               else
                 let chunk = str_rstrip NUL (contents reply)
                 in if length chunk = 0 then Inr (files, s2)
                    else readdir_loop s2 dname (files @ str_split NUL chunk)))"
  by pat_completeness auto
termination
  by (relation "measure (\<lambda>(s, dname, files). length (waits s))")
    (auto simp: wait_def link_def next_seq_def split: list.splits)

declare readdir_loop.simps [simp del]

definition readdir :: "'c state \<Rightarrow> string \<Rightarrow> error + string list \<times> 'c state" where
  "readdir s dname = readdir_loop s dname []"

subsection \<open>remove and write\<close>

definition remove :: "'c state \<Rightarrow> string \<Rightarrow> 'c state" where
  "remove s fname = link s (MsgFileioRemove fname)"

text \<open>
  The loop of \<open>write\<close>.  \<open>offset\<close> indexes \<open>data\<close> and is the file offset of the request;
  the chunk, \<open>data[offset:offset + chunksize - 1]\<close>, travels in the \<open>filename\<close> field, after
  a NUL.  The variables \<open>current_index\<close> and \<open>end_index\<close> of the source are assigned and
  never read.
\<close>

partial_function (option) write_loop ::
  "'c state \<Rightarrow> string \<Rightarrow> string \<Rightarrow> int \<Rightarrow> int \<Rightarrow> (int \<Rightarrow> 'c \<Rightarrow> 'c) option
     \<Rightarrow> (error + 'c state) option" where
  "write_loop s fname dat ofs chunksize progress_cb =
     (if ofs < int (length dat) then
        (case next_seq s of
           (q, s1) \<Rightarrow>
             (let chunk = py_slice dat ofs (ofs + chunksize - 1)
              in case send s1 (MsgFileioWriteReq q (fname @ NUL # chunk) ofs []) of
                   None \<Rightarrow> None
                 | Some (Inl e) \<Rightarrow> Some (Inl e)
                 | Some (Inr s2) \<Rightarrow>
                     write_loop
                       (case progress_cb of
                          None \<Rightarrow> s2
                        | Some f \<Rightarrow> s2\<lparr>closure := f (ofs + int (length chunk)) (closure s2)\<rparr>)
                       fname dat (ofs + int (length chunk)) chunksize progress_cb))
      else Some (Inr s))"

definition fio_write ::
  "'c state \<Rightarrow> string \<Rightarrow> string \<Rightarrow> int \<Rightarrow> bool \<Rightarrow> (int \<Rightarrow> 'c \<Rightarrow> 'c) option
     \<Rightarrow> (error + 'c state) option" where
  "fio_write s fname dat ofs trunc progress_cb =
     (let s0 = (if trunc \<and> ofs = 0 then remove s fname else s);
          chunksize = MAX_PAYLOAD_SIZE - int (length fname) - 9;
          sr = SelectiveRepeater s0 None
      in case write_loop sr fname dat ofs chunksize progress_cb of
           None \<Rightarrow> None
         | Some (Inl e) \<Rightarrow> Some (Inl e)
         | Some (Inr s1) \<Rightarrow> flush s1)"

section \<open>Notions used to state the properties\<close>

text \<open>The number of window slots plus the number of in-flight entries.\<close>

definition slots :: "'c state \<Rightarrow> nat" where
  "slots s = length (window s) + length (pending s)"

text \<open>The states a repeater goes through: created by \<open>__init__\<close>, changed by its methods.\<close>

inductive reachable :: "'c state \<Rightarrow> bool" where
  init: "reachable (SelectiveRepeater s f)"
| fetch: "reachable s \<Longrightarrow> fetch_pending_write s m = Inr s' \<Longrightarrow> reachable s'"
| return: "reachable s \<Longrightarrow> return_pending_write s r = Inr s' \<Longrightarrow> reachable s'"
| reply: "reachable s \<Longrightarrow> sr_cb s m = Inr s' \<Longrightarrow> reachable s'"
| check: "reachable s \<Longrightarrow> check_pending s = Inr s' \<Longrightarrow> reachable s'"
| sleep: "reachable s \<Longrightarrow> sleep s = Inr s' \<Longrightarrow> reachable s'"
| send: "reachable s \<Longrightarrow> send s m = Some (Inr s') \<Longrightarrow> reachable s'"
| flush: "reachable s \<Longrightarrow> flush s = Some (Inr s') \<Longrightarrow> reachable s'"

text \<open>The sequence numbers of the in-flight requests, in the order of \<open>pending\<close>.\<close>

definition in_flight :: "'c state \<Rightarrow> int option list" where
  "in_flight s = map (\<lambda>r. map_option sequence (message (heap s r))) (pending s)"

text \<open>A state with a silent link, a stopped clock and nothing else.\<close>

definition quiet :: "'c \<Rightarrow> 'c state" where
  "quiet c =
     \<lparr>seq = 0, window = [], pending = [], cb = None, cb_thread = None, link_thread = None,
      heap = (\<lambda>r. \<lparr>message = None, time = None, tries = None, complete = None\<rparr>),
      closure = c, sent = [], inbox = [], waits = [], clock = (\<lambda>n. 0), ticks = 0,
      thread = 0, dispatcher = 1\<rparr>"

text \<open>The repeater after its first \<open>_fetch_pending_write\<close>: one request in flight.\<close>

definition one_in_flight :: "unit state" where
  "one_in_flight =
     (SelectiveRepeater (quiet ()) None)
       \<lparr>link_thread := Some 0, window := [1 ..< 40], pending := [0],
         heap := (heap (SelectiveRepeater (quiet ()) None))
           (0 := \<lparr>message = Some (MsgFileioWriteReq 1 [] 0 []), time = Some 0, tries = Some 0,
                  complete = Some False\<rparr>),
         ticks := 1\<rparr>"

text \<open>The same state with the acknowledgement of that request on its way.\<close>

definition acked :: "unit state" where
  "acked = one_in_flight\<lparr>inbox := [[MsgFileioWriteResp 1]]\<rparr>"

text \<open>One request in flight, sent at time 0 and tried \<open>n\<close> times, with the clock at 10.\<close>

definition stale :: "int \<Rightarrow> unit state" where
  "stale n =
     one_in_flight
       \<lparr>clock := (\<lambda>k. 10),
         heap := (heap one_in_flight)(0 := (heap one_in_flight 0)\<lparr>tries := Some n\<rparr>)\<rparr>"

text \<open>
  A directory listing as the device sends it: one reply per page, each page the names of
  its entries, every name followed by a NUL, and an empty page at the end; the replies
  echo the sequence numbers \<open>q\<close>, \<open>q + 1\<close>, ...  \<open>dir_requests\<close> are the requests such
  a listing is asked for with: page offsets are the numbers of names received before.
\<close>

fun dir_replies :: "int \<Rightarrow> string list list \<Rightarrow> msg option list" where
  "dir_replies q [] = [Some (MsgFileioReadDirResp q [])]"
| "dir_replies q (names # later) =
     Some (MsgFileioReadDirResp q (concat (map (\<lambda>n. n @ [NUL]) names))) # dir_replies (q + 1) later"

fun dir_requests :: "int \<Rightarrow> string \<Rightarrow> nat \<Rightarrow> string list list \<Rightarrow> msg list" where
  "dir_requests q d k [] = [MsgFileioReadDirReq q (int k) d]"
| "dir_requests q d k (names # later) =
     MsgFileioReadDirReq q (int k) d # dir_requests (q + 1) d (k + length names) later"

text \<open>
  \<open>good_pages q ws i\<close>: the first \<open>i\<close> waits returned a non-empty page each, with the
  sequence number of its request.  \<open>first_fault\<close> walks through the waits the way the
  loop does and tells how the listing fails, if it does.
\<close>

definition good_pages :: "int \<Rightarrow> msg option list \<Rightarrow> nat \<Rightarrow> bool" where
  "good_pages q ws i \<longleftrightarrow>
     (\<forall>j<i. \<exists>reply. ws ! j = Some reply \<and> sequence reply = q + int j \<and>
                   str_rstrip NUL (contents reply) \<noteq> [])"

fun first_fault :: "int \<Rightarrow> msg option list \<Rightarrow> error option" where
  "first_fault q [] = Some ReadDir_timeout"
| "first_fault q (None # ws) = Some ReadDir_timeout"
| "first_fault q (Some reply # ws) =
     (if sequence reply \<noteq> q then Some ReadDir_mismatch
      else if str_rstrip NUL (contents reply) = [] then None
      else first_fault (q + 1) ws)"

text \<open>
  \<open>chunks k xs\<close> cuts \<open>xs\<close> into pieces of \<open>k\<close> elements, the last one possibly
  shorter.  \<open>write_chunks\<close> is the procedure the specification describes for a write:
  the given chunks are sent one after the other, each in a request with the next sequence
  number, at the offset where the chunk before it ended, and the progress callback gets
  the offset reached.
\<close>

function chunks :: "nat \<Rightarrow> 'a list \<Rightarrow> 'a list list" where
  "chunks k xs = (if k = 0 \<or> xs = [] then [] else take k xs # chunks k (drop k xs))"
  by pat_completeness auto
termination
  by (relation "measure (\<lambda>(k, xs). length xs)") auto

declare chunks.simps [simp del]

fun write_chunks ::
  "'c state \<Rightarrow> string \<Rightarrow> int \<Rightarrow> (int \<Rightarrow> 'c \<Rightarrow> 'c) option \<Rightarrow> string list
     \<Rightarrow> (error + 'c state) option" where
  "write_chunks s fname ofs progress_cb [] = Some (Inr s)"
| "write_chunks s fname ofs progress_cb (chunk # later) =
     (case send (s\<lparr>seq := seq s + 1\<rparr>)
             (MsgFileioWriteReq (seq s + 1) (fname @ NUL # chunk) ofs []) of
        None \<Rightarrow> None
      | Some (Inl e) \<Rightarrow> Some (Inl e)
      | Some (Inr s2) \<Rightarrow>
          write_chunks
            (case progress_cb of
               None \<Rightarrow> s2
             | Some f \<Rightarrow> s2\<lparr>closure := f (ofs + int (length chunk)) (closure s2)\<rparr>)
            fname (ofs + int (length chunk)) progress_cb later)"

text \<open>A silent state in which the acknowledgements of two requests are on their way.\<close>

definition two_acks :: "unit state" where
  "two_acks = (quiet ())\<lparr>inbox := [[MsgFileioWriteResp 1], [MsgFileioWriteResp 2]]\<rparr>"

text \<open>A silent state for a read, with the given batches of replies on their way.\<close>

definition reading :: "msg list list \<Rightarrow> read_closure state" where
  "reading batches = (quiet \<lparr>closure_done = False, closure_buf = []\<rparr>)\<lparr>inbox := batches\<rparr>"

section \<open>Properties\<close>

subsection \<open>Window accounting\<close>

lemma verify_cb_thread_Inr:
  "verify_cb_thread s = Inr s1 \<Longrightarrow> s1 = s\<lparr>cb_thread := Some (thread s)\<rparr>"
  by (cases "cb_thread s") (auto simp: verify_cb_thread_def Let_def split: if_splits)

lemma verify_link_thread_Inr:
  "verify_link_thread s = Inr s1 \<Longrightarrow> s1 = s\<lparr>link_thread := Some (thread s)\<rparr>"
  by (cases "link_thread s") (auto simp: verify_link_thread_def Let_def split: if_splits)

lemma fetch_moves:
  assumes "fetch_pending_write s m = Inr s'"
  shows "\<exists>r. window s = r # window s' \<and> pending s' = pending s @ [r]"
  using assms
  by (auto simp: fetch_pending_write_def split: sum.splits list.splits dest!: verify_link_thread_Inr)

lemma return_moves:
  assumes "return_pending_write s r = Inr s'"
  shows "r \<in> set (pending s) \<and> pending s' = remove1 r (pending s) \<and> window s' = window s @ [r]"
  using assms
  by (auto simp: return_pending_write_def split: sum.splits if_splits dest!: verify_cb_thread_Inr)

lemma slots_fetch: "fetch_pending_write s m = Inr s' \<Longrightarrow> slots s' = slots s"
  by (drule fetch_moves) (auto simp: slots_def)

lemma slots_return: "return_pending_write s r = Inr s' \<Longrightarrow> slots s' = slots s"
  by (drule return_moves) (auto simp: slots_def length_remove1 dest: length_pos_if_in_set)

lemma slots_cb_loop: "cb_loop s m rs = Inr s' \<Longrightarrow> slots s' = slots s"
proof (induction rs arbitrary: s)
  case Nil
  then show ?case by simp
next
  case (Cons r rs)
  show ?case
  proof (cases "message (heap s r)")
    case None
    with Cons.prems show ?thesis by simp
  next
    case (Some req)
    show ?thesis
    proof (cases "sequence m = sequence req")
      case False
      with Some Cons show ?thesis by simp
    next
      case True
      define s1 where "s1 = (case cb s of None \<Rightarrow> s | Some f \<Rightarrow> s\<lparr>closure := f req m (closure s)\<rparr>)"
      define s2 where "s2 = s1\<lparr>heap := (heap s1)(r := (heap s1 r)\<lparr>complete := Some True\<rparr>)\<rparr>"
      have e: "slots s2 = slots s"
        by (simp add: s2_def s1_def slots_def split: option.splits)
      from Cons.prems Some True obtain s3 where
        r: "return_pending_write s2 r = Inr s3" and l: "cb_loop s3 m rs = Inr s'"
        by (auto simp: s1_def s2_def Let_def split: sum.splits)
      from slots_return [OF r] Cons.IH [OF l] e show ?thesis by simp
    qed
  qed
qed

lemma slots_sr_cb: "sr_cb s m = Inr s' \<Longrightarrow> slots s' = slots s"
  unfolding sr_cb_def by (rule slots_cb_loop)

lemma slots_dispatch: "dispatch s ms = Inr s' \<Longrightarrow> slots s' = slots s"
proof (induction ms arbitrary: s)
  case Nil
  then show ?case by simp
next
  case (Cons m ms)
  then show ?case by (auto split: sum.splits dest!: slots_sr_cb)
qed

lemma slots_blocked: "blocked s = Inr s' \<Longrightarrow> slots s' = slots s"
  by (auto simp: blocked_def slots_def split: list.splits sum.splits dest!: slots_dispatch)

lemma slots_transmit: "transmit s m = Inr s' \<Longrightarrow> slots s' = slots s"
  by (auto simp: transmit_def link_def dest!: slots_blocked) (simp add: slots_def)

lemma slots_check_entry: "check_entry s r = Inr s' \<Longrightarrow> slots s' = slots s"
  by (auto simp: check_entry_def Let_def record_retry_def split: if_splits option.splits sum.splits dest!: slots_transmit)
    (simp_all add: slots_def)

lemma slots_check_loop: "check_loop s rs = Inr s' \<Longrightarrow> slots s' = slots s"
  by (induction rs arbitrary: s) (auto split: sum.splits dest!: slots_check_entry)

lemma slots_check_pending: "check_pending s = Inr s' \<Longrightarrow> slots s' = slots s"
  unfolding check_pending_def by (rule slots_check_loop)

lemma slots_wait_aux:
  assumes "wait_window_available s = Some r"
  shows "\<forall>s'. r = Inr s' \<longrightarrow> slots s' = slots s"
proof (rule wait_window_available.raw_induct [OF _ assms], goal_cases)
  case (1 w s r)
  then show ?case
    by (fastforce simp: sleep_def split: if_splits sum.splits dest!: slots_check_pending slots_blocked)
qed

lemma slots_wait: "wait_window_available s = Some (Inr s') \<Longrightarrow> slots s' = slots s"
  using slots_wait_aux by blast

lemma slots_send: "send s m = Some (Inr s') \<Longrightarrow> slots s' = slots s"
  by (auto simp: send_def split: option.splits sum.splits dest!: slots_wait slots_fetch slots_transmit)

lemma slots_flush_aux:
  assumes "flush s = Some r"
  shows "\<forall>s'. r = Inr s' \<longrightarrow> slots s' = slots s"
proof (rule flush.raw_induct [OF _ assms], goal_cases)
  case (1 w s r)
  then show ?case
    by (fastforce simp: sleep_def split: if_splits sum.splits dest!: slots_check_pending slots_blocked)
qed

lemma slots_flush: "flush s = Some (Inr s') \<Longrightarrow> slots s' = slots s"
  using slots_flush_aux by blast

lemma slots_reachable: "reachable s \<Longrightarrow> slots s = SBP_FILEIO_WINDOW_SIZE"
proof (induction rule: reachable.induct)
  case (init s f)
  show ?case by (simp add: slots_def SelectiveRepeater_def)
next
  case (sleep s s')
  then show ?case by (auto simp: sleep_def dest: slots_blocked)
qed (auto dest: slots_fetch slots_return slots_sr_cb slots_check_pending slots_send slots_flush)

lemma wait_window_free:
  "window s \<noteq> [] \<Longrightarrow> wait_window_available s = Some (Inr s)"
  by (subst wait_window_available.simps) (simp add: window_available_def)

lemma flush_idle: "pending s = [] \<Longrightarrow> flush s = Some (Inr s)"
  by (subst flush.simps) simp

lemma fetch_first:
  "fetch_pending_write (SelectiveRepeater (quiet ()) None) (MsgFileioWriteReq 1 [] 0 []) =
     Inr one_in_flight"
  by (simp add: fetch_pending_write_def verify_link_thread_def SelectiveRepeater_def quiet_def
      SBP_FILEIO_WINDOW_SIZE_def upt_conv_Cons track_def one_in_flight_def)

lemma in_flight_one: "in_flight one_in_flight = [Some 1]"
  by (simp add: in_flight_def one_in_flight_def)

subsection \<open>The reply handler\<close>

lemma cb_loop_no_match:
  assumes "\<forall>r\<in>set rs. \<exists>req. message (heap s r) = Some req \<and> sequence m \<noteq> sequence req"
  shows "cb_loop s m rs = Inr s"
  using assms by (induction rs) auto

lemma cb_loop_append:
  "cb_loop s m (xs @ ys) =
     (case cb_loop s m xs of Inl e \<Rightarrow> Inl e | Inr s1 \<Rightarrow> cb_loop s1 m ys)"
  by (induction xs arbitrary: s) (auto simp: Let_def split: option.splits sum.splits)

lemma in_flight_tracked:
  assumes "None \<notin> set (in_flight s)" and "r \<in> set (pending s)"
  obtains req where "message (heap s r) = Some req"
proof -
  from assms have "map_option sequence (message (heap s r)) \<noteq> None"
    by (force simp: in_flight_def)
  then show ?thesis using that by auto
qed

lemma in_flight_no_match:
  assumes "None \<notin> set (in_flight s)" and "Some (sequence m) \<notin> set (in_flight s)"
    and "r \<in> set (pending s)"
  shows "\<exists>req. message (heap s r) = Some req \<and> sequence m \<noteq> sequence req"
proof -
  from assms(1,3) obtain req where req: "message (heap s r) = Some req"
    by (rule in_flight_tracked)
  with assms(3) have "Some (sequence req) \<in> set (in_flight s)"
    by (force simp: in_flight_def)
  with assms(2) req show ?thesis by auto
qed

text \<open>
  Claim C10.  A reply whose sequence number matches no in-flight entry (a duplicate of
  an already completed one, for instance) leaves the whole state as it is: the in-flight
  list, the window and the closure of the session callback, which is not invoked.
\<close>

theorem unmatched_reply_ignored:
  assumes "None \<notin> set (in_flight s)" and "Some (sequence m) \<notin> set (in_flight s)"
  shows "sr_cb s m = Inr s"
  unfolding sr_cb_def
  by (rule cb_loop_no_match) (use assms in_flight_no_match in blast)

theorem unmatched_reply_ignored_witness:
  "None \<notin> set (in_flight one_in_flight) \<and>
   Some (sequence (MsgFileioWriteResp 2)) \<notin> set (in_flight one_in_flight) \<and>
   sr_cb one_in_flight (MsgFileioWriteResp 2) = Inr one_in_flight"
proof -
  have h: "None \<notin> set (in_flight one_in_flight)"
    "Some (sequence (MsgFileioWriteResp 2)) \<notin> set (in_flight one_in_flight)"
    by (simp_all add: in_flight_one)
  from h unmatched_reply_ignored [OF h] show ?thesis by simp
qed

lemma sr_cb_match:
  assumes tracked: "None \<notin> set (in_flight s)"
    and dist: "distinct (in_flight s)"
    and hit: "Some (sequence m) \<in> set (in_flight s)"
    and thr: "cb_thread s = None \<or> cb_thread s = Some (thread s)"
  shows "\<exists>r req. r \<in> set (pending s) \<and> message (heap s r) = Some req \<and>
           sequence req = sequence m \<and>
           sr_cb s m =
             Inr (s\<lparr>closure := (case cb s of None \<Rightarrow> closure s | Some f \<Rightarrow> f req m (closure s)),
                    cb_thread := Some (thread s),
                    pending := remove1 r (pending s),
                    window := window s @ [r],
                    heap := (heap s)(r := invalidate (heap s r))\<rparr>)"
proof -
  define key where "key = (\<lambda>r. map_option sequence (message (heap s r)))"
  have fl: "in_flight s = map key (pending s)"
    by (simp add: in_flight_def key_def)
  from hit obtain r where r: "r \<in> set (pending s)" and kr: "key r = Some (sequence m)"
    unfolding fl by force
  then obtain req where req: "message (heap s r) = Some req" and sq: "sequence req = sequence m"
    by (auto simp: key_def)
  from r obtain pre post where decomp: "pending s = pre @ r # post"
    by (auto simp: in_set_conv_decomp)
  from dist have dk: "distinct (map key (pending s))" by (simp add: fl)
  then have dd: "distinct (pending s)" and inj: "inj_on key (set (pending s))"
    by (simp_all add: distinct_map)
  have neq: "x \<noteq> r" if "x \<in> set pre \<union> set post" for x
    using dd that unfolding decomp by auto
  have other: "\<exists>q. message (heap s x) = Some q \<and> sequence m \<noteq> sequence q"
    if "x \<in> set pre \<union> set post" for x
  proof -
    from that have xin: "x \<in> set (pending s)" unfolding decomp by auto
    with tracked obtain q where q: "message (heap s x) = Some q" by (rule in_flight_tracked)
    from inj xin r neq [OF that] have "key x \<noteq> key r" by (auto dest: inj_onD)
    with q kr show ?thesis by (auto simp: key_def)
  qed
  define s1 where "s1 = (case cb s of None \<Rightarrow> s | Some f \<Rightarrow> s\<lparr>closure := f req m (closure s)\<rparr>)"
  define s2 where "s2 = s1\<lparr>heap := (heap s1)(r := (heap s1 r)\<lparr>complete := Some True\<rparr>)\<rparr>"
  define s3 where "s3 = s\<lparr>closure := (case cb s of None \<Rightarrow> closure s | Some f \<Rightarrow> f req m (closure s)),
                    cb_thread := Some (thread s),
                    pending := remove1 r (pending s),
                    window := window s @ [r],
                    heap := (heap s)(r := invalidate (heap s r))\<rparr>"
  have ret: "return_pending_write s2 r = Inr s3"
    using thr r
    by (cases "cb s")
      (auto simp: return_pending_write_def verify_cb_thread_def s1_def s2_def s3_def
        invalidate_def Let_def)
  have pre: "cb_loop s m pre = Inr s"
    by (rule cb_loop_no_match) (use other in auto)
  have post: "cb_loop s3 m post = Inr s3"
  proof (rule cb_loop_no_match, rule ballI)
    fix x assume x: "x \<in> set post"
    then have "x \<noteq> r" using neq by auto
    then have "heap s3 x = heap s x" by (simp add: s3_def)
    with other [of x] x show "\<exists>q. message (heap s3 x) = Some q \<and> sequence m \<noteq> sequence q"
      by auto
  qed
  have "cb_loop s m (r # post) = Inr s3"
    using req sq ret post by (simp add: s1_def s2_def Let_def)
  with pre have "sr_cb s m = Inr s3"
    by (simp add: sr_cb_def decomp cb_loop_append)
  with r req sq show ?thesis unfolding s3_def by blast
qed

text \<open>
  Claim C5.  When the in-flight requests have pairwise distinct sequence numbers and
  one of them has the sequence number of the incoming reply, the handler completes that
  one entry: it leaves the in-flight list, its slot goes back to the end of the window,
  its object is invalidated, and the session callback (if there is one) is applied
  exactly once, to that request and the reply.
\<close>

theorem reply_completes_one:
  assumes tracked: "None \<notin> set (in_flight s)"
    and dist: "distinct (in_flight s)"
    and hit: "Some (sequence m) \<in> set (in_flight s)"
    and thr: "cb_thread s = None \<or> cb_thread s = Some (thread s)"
  shows "\<exists>r req. r \<in> set (pending s) \<and> message (heap s r) = Some req \<and>
           sequence req = sequence m \<and>
           sr_cb s m =
             Inr (s\<lparr>closure := (case cb s of None \<Rightarrow> closure s | Some f \<Rightarrow> f req m (closure s)),
                    cb_thread := Some (thread s),
                    pending := remove1 r (pending s),
                    window := window s @ [r],
                    heap := (heap s)(r := invalidate (heap s r))\<rparr>)"
  using assms by (rule sr_cb_match)

theorem reply_completes_one_witness:
  "None \<notin> set (in_flight one_in_flight) \<and> distinct (in_flight one_in_flight) \<and>
   Some (sequence (MsgFileioWriteResp 1)) \<in> set (in_flight one_in_flight) \<and>
   (\<exists>s'. sr_cb one_in_flight (MsgFileioWriteResp 1) = Inr s' \<and>
         pending s' = [] \<and> window s' = [1 ..< 40] @ [0] \<and> message (heap s' 0) = None)"
proof -
  have h: "None \<notin> set (in_flight one_in_flight)" "distinct (in_flight one_in_flight)"
    "Some (sequence (MsgFileioWriteResp 1)) \<in> set (in_flight one_in_flight)"
    "cb_thread one_in_flight = None \<or> cb_thread one_in_flight = Some (thread one_in_flight)"
    by (simp_all add: in_flight_one) (simp add: one_in_flight_def SelectiveRepeater_def)
  from reply_completes_one [OF h] obtain r req where
    r: "r \<in> set (pending one_in_flight)" and
    c: "sr_cb one_in_flight (MsgFileioWriteResp 1) =
          Inr (one_in_flight\<lparr>closure := (case cb one_in_flight of None \<Rightarrow> closure one_in_flight
                   | Some f \<Rightarrow> f req (MsgFileioWriteResp 1) (closure one_in_flight)),
                 cb_thread := Some (thread one_in_flight),
                 pending := remove1 r (pending one_in_flight),
                 window := window one_in_flight @ [r],
                 heap := (heap one_in_flight)(r := invalidate (heap one_in_flight r))\<rparr>)"
    by blast
  from r have r0: "r = 0" by (simp add: one_in_flight_def)
  have "pending one_in_flight = [0]" "window one_in_flight = [1 ..< 40]"
    by (simp_all add: one_in_flight_def)
  with c r0 h show ?thesis by (simp add: invalidate_def)
qed

subsection \<open>The window invariant\<close>

lemma wait_returns_free_aux:
  assumes "wait_window_available s = Some r"
  shows "\<forall>s1. r = Inr s1 \<longrightarrow> window s1 \<noteq> []"
proof (rule wait_window_available.raw_induct [OF _ assms], goal_cases)
  case (1 w s r)
  then show ?case
    by (fastforce simp: window_available_def split: if_splits sum.splits)
qed

lemma send_decomposed:
  assumes "send s m = Some (Inr s')"
  shows "\<exists>s1 s2. wait_window_available s = Some (Inr s1) \<and> window s1 \<noteq> [] \<and>
           fetch_pending_write s1 m = Inr s2 \<and> transmit s2 m = Inr s'"
proof -
  from assms obtain s1 s2 where w: "wait_window_available s = Some (Inr s1)"
    and f: "fetch_pending_write s1 m = Inr s2" and t: "transmit s2 m = Inr s'"
    by (auto simp: send_def split: option.splits sum.splits)
  from w have "window s1 \<noteq> []" using wait_returns_free_aux by blast
  with w f t show ?thesis by blast
qed

lemma send_free_slot:
  assumes "window s \<noteq> []" and "inbox s = []"
    and "link_thread s = None \<or> link_thread s = Some (thread s)"
  shows "send s m =
           Some (Inr (s\<lparr>link_thread := Some (thread s),
                         window := tl (window s),
                         pending := pending s @ [hd (window s)],
                         heap := (heap s)
                           (hd (window s) := track (heap s (hd (window s))) m (clock s (ticks s))),
                         ticks := Suc (ticks s),
                         sent := sent s @ [m]\<rparr>))"
proof -
  from assms(1) obtain r rest where w: "window s = r # rest" by (cases "window s") auto
  from assms(3) have v: "verify_link_thread s = Inr (s\<lparr>link_thread := Some (thread s)\<rparr>)"
    by (auto simp: verify_link_thread_def)
  show ?thesis
    using assms(2) w
    by (simp add: send_def wait_window_free [OF assms(1)] fetch_pending_write_def v
        transmit_def link_def blocked_def)
qed

text \<open>
  Claim C1.  In every state a repeater reaches, the free window slots and the in-flight
  entries add up to the capacity of 40, so at most 40 entries are in flight.
  \<open>_fetch_pending_write\<close> moves exactly one slot from the window to the in-flight list
  and \<open>_return_pending_write\<close> moves exactly one back.  Every \<open>send\<close> that returns has
  waited for a free slot, fetched exactly one, and transmitted; with a slot free and no
  reply arriving meanwhile it moves the first slot of the window to the end of the
  in-flight list, tracks the request in it and hands the request to the link.  A reply
  that completes an in-flight entry moves exactly that entry back to the window.
\<close>

theorem window_accounting:
  "(reachable s \<longrightarrow>
      length (window s) + length (pending s) = SBP_FILEIO_WINDOW_SIZE \<and>
      length (pending s) \<le> SBP_FILEIO_WINDOW_SIZE) \<and>
   (fetch_pending_write t m = Inr t' \<longrightarrow>
      length (window t) = length (window t') + 1 \<and>
      length (pending t') = length (pending t) + 1) \<and>
   (return_pending_write u r = Inr u' \<longrightarrow>
      length (pending u) = length (pending u') + 1 \<and>
      length (window u') = length (window u) + 1) \<and>
   (send v a = Some (Inr v') \<longrightarrow>
      (\<exists>v1 v2. wait_window_available v = Some (Inr v1) \<and> window v1 \<noteq> [] \<and>
         fetch_pending_write v1 a = Inr v2 \<and> transmit v2 a = Inr v' \<and>
         length (window v1) = length (window v2) + 1 \<and>
         length (pending v2) = length (pending v1) + 1)) \<and>
   (window w \<noteq> [] \<and> inbox w = [] \<and>
    (link_thread w = None \<or> link_thread w = Some (thread w)) \<longrightarrow>
      (\<exists>w'. send w b = Some (Inr w') \<and>
         window w = hd (window w) # window w' \<and>
         pending w' = pending w @ [hd (window w)] \<and>
         message (heap w' (hd (window w))) = Some b \<and>
         sent w' = sent w @ [b])) \<and>
   (None \<notin> set (in_flight x) \<and> distinct (in_flight x) \<and>
    Some (sequence y) \<in> set (in_flight x) \<and>
    (cb_thread x = None \<or> cb_thread x = Some (thread x)) \<longrightarrow>
      (\<exists>x' e. sr_cb x y = Inr x' \<and> e \<in> set (pending x) \<and>
         map_option sequence (message (heap x e)) = Some (sequence y) \<and>
         pending x' = remove1 e (pending x) \<and> window x' = window x @ [e] \<and>
         length (pending x) = length (pending x') + 1 \<and>
         length (window x') = length (window x) + 1))"
proof (intro conjI impI)
  assume "reachable s"
  then have "slots s = SBP_FILEIO_WINDOW_SIZE" by (rule slots_reachable)
  then show "length (window s) + length (pending s) = SBP_FILEIO_WINDOW_SIZE"
    and "length (pending s) \<le> SBP_FILEIO_WINDOW_SIZE"
    by (simp_all add: slots_def)
next
  assume "fetch_pending_write t m = Inr t'"
  then obtain z where "window t = z # window t'" "pending t' = pending t @ [z]"
    using fetch_moves by blast
  then show "length (window t) = length (window t') + 1"
    and "length (pending t') = length (pending t) + 1"
    by simp_all
next
  assume "return_pending_write u r = Inr u'"
  then have "r \<in> set (pending u)" "pending u' = remove1 r (pending u)"
    "window u' = window u @ [r]"
    using return_moves by blast+
  then show "length (pending u) = length (pending u') + 1"
    and "length (window u') = length (window u) + 1"
    by (simp_all add: length_remove1) (metis One_nat_def Suc_pred length_pos_if_in_set)
next
  assume "send v a = Some (Inr v')"
  then obtain v1 v2 where d: "wait_window_available v = Some (Inr v1)" "window v1 \<noteq> []"
    "fetch_pending_write v1 a = Inr v2" "transmit v2 a = Inr v'"
    using send_decomposed by blast
  from fetch_moves [OF d(3)] obtain z where "window v1 = z # window v2"
    "pending v2 = pending v1 @ [z]" by blast
  then have "length (window v1) = length (window v2) + 1"
    "length (pending v2) = length (pending v1) + 1" by simp_all
  with d show "\<exists>v1 v2. wait_window_available v = Some (Inr v1) \<and> window v1 \<noteq> [] \<and>
         fetch_pending_write v1 a = Inr v2 \<and> transmit v2 a = Inr v' \<and>
         length (window v1) = length (window v2) + 1 \<and>
         length (pending v2) = length (pending v1) + 1" by blast
next
  assume h: "window w \<noteq> [] \<and> inbox w = [] \<and>
    (link_thread w = None \<or> link_thread w = Some (thread w))"
  then have "send w b =
           Some (Inr (w\<lparr>link_thread := Some (thread w),
                         window := tl (window w),
                         pending := pending w @ [hd (window w)],
                         heap := (heap w)
                           (hd (window w) := track (heap w (hd (window w))) b (clock w (ticks w))),
                         ticks := Suc (ticks w),
                         sent := sent w @ [b]\<rparr>))"
    by (intro send_free_slot) blast+
  with h show "\<exists>w'. send w b = Some (Inr w') \<and>
         window w = hd (window w) # window w' \<and>
         pending w' = pending w @ [hd (window w)] \<and>
         message (heap w' (hd (window w))) = Some b \<and>
         sent w' = sent w @ [b]"
    by (simp add: track_def)
next
  assume h: "None \<notin> set (in_flight x) \<and> distinct (in_flight x) \<and>
    Some (sequence y) \<in> set (in_flight x) \<and>
    (cb_thread x = None \<or> cb_thread x = Some (thread x))"
  then obtain e req where e: "e \<in> set (pending x)" "message (heap x e) = Some req"
    "sequence req = sequence y"
    and c: "sr_cb x y =
             Inr (x\<lparr>closure := (case cb x of None \<Rightarrow> closure x | Some f \<Rightarrow> f req y (closure x)),
                    cb_thread := Some (thread x),
                    pending := remove1 e (pending x),
                    window := window x @ [e],
                    heap := (heap x)(e := invalidate (heap x e))\<rparr>)"
    using sr_cb_match [of x y] by blast
  from e(1) have "length (pending x) = length (remove1 e (pending x)) + 1"
    by (simp add: length_remove1) (metis One_nat_def Suc_pred length_pos_if_in_set)
  with e c show "\<exists>x' e. sr_cb x y = Inr x' \<and> e \<in> set (pending x) \<and>
         map_option sequence (message (heap x e)) = Some (sequence y) \<and>
         pending x' = remove1 e (pending x) \<and> window x' = window x @ [e] \<and>
         length (pending x) = length (pending x') + 1 \<and>
         length (window x') = length (window x) + 1"
    by (intro exI [of _ "x\<lparr>closure := (case cb x of None \<Rightarrow> closure x | Some f \<Rightarrow> f req y (closure x)),
                    cb_thread := Some (thread x),
                    pending := remove1 e (pending x),
                    window := window x @ [e],
                    heap := (heap x)(e := invalidate (heap x e))\<rparr>"] exI [of _ e]) simp
qed

theorem window_accounting_witness:
  "\<exists>t u. fetch_pending_write (SelectiveRepeater (quiet ()) None) (MsgFileioWriteReq 1 [] 0 []) = Inr t \<and>
         return_pending_write t 0 = Inr u \<and>
         reachable t \<and> length (window t) = 39 \<and> length (pending t) = 1 \<and>
         length (window u) = 40 \<and> length (pending u) = 0 \<and>
         (\<exists>w'. send (SelectiveRepeater (quiet ()) None) (MsgFileioWriteReq 1 [] 0 []) = Some (Inr w') \<and>
            length (window w') = 39 \<and> pending w' = [0] \<and>
            sent w' = [MsgFileioWriteReq 1 [] 0 []]) \<and>
         (\<exists>x'. sr_cb t (MsgFileioWriteResp 1) = Inr x' \<and>
            pending x' = [] \<and> length (window x') = 40)"
proof -
  let ?s = "SelectiveRepeater (quiet ()) None :: unit state"
  let ?m = "MsgFileioWriteReq 1 [] 0 []"
  let ?y = "MsgFileioWriteResp 1"
  let ?u = "one_in_flight\<lparr>cb_thread := Some 0, pending := [], window := [1 ..< 40] @ [0],
              heap := (heap one_in_flight)(0 := invalidate (heap one_in_flight 0))\<rparr>"
  have f: "fetch_pending_write ?s ?m = Inr one_in_flight" by (rule fetch_first)
  have r: "return_pending_write one_in_flight 0 = Inr ?u"
    by (simp add: return_pending_write_def verify_cb_thread_def one_in_flight_def
        SelectiveRepeater_def quiet_def)
  have reach: "reachable one_in_flight"
    by (rule reachable.fetch [OF reachable.init f])
  note wa = window_accounting
    [of one_in_flight ?s ?m one_in_flight one_in_flight 0 ?u ?s ?m _ ?s ?m one_in_flight ?y]
  from wa reach
  have a: "length (window one_in_flight) + length (pending one_in_flight) = SBP_FILEIO_WINDOW_SIZE"
    by blast
  from wa f have b: "length (pending one_in_flight) = length (pending ?s) + 1"
    by blast
  from wa r have c: "length (pending one_in_flight) = length (pending ?u) + 1"
    and d: "length (window ?u) = length (window one_in_flight) + 1"
    by blast+
  have ps: "pending ?s = []" and ws: "window ?s = [0 ..< 40]" and ss: "sent ?s = []"
    by (simp_all add: SelectiveRepeater_def SBP_FILEIO_WINDOW_SIZE_def quiet_def)
  from b ps have p1: "length (pending one_in_flight) = 1" by simp
  with a have w1: "length (window one_in_flight) = 39"
    unfolding SBP_FILEIO_WINDOW_SIZE_def by linarith
  from c p1 have p2: "length (pending ?u) = 0" by linarith
  from d w1 have w2: "length (window ?u) = 40" by linarith
  have hs: "window ?s \<noteq> [] \<and> inbox ?s = [] \<and>
      (link_thread ?s = None \<or> link_thread ?s = Some (thread ?s))"
    by (simp add: SelectiveRepeater_def SBP_FILEIO_WINDOW_SIZE_def quiet_def)
  with wa obtain w' where sw: "send ?s ?m = Some (Inr w')"
    and x1: "window ?s = hd (window ?s) # window w'"
    and x2: "pending w' = pending ?s @ [hd (window ?s)]"
    and x3: "sent w' = sent ?s @ [?m]"
    by blast
  have h0: "hd (window ?s) = 0" and l40: "length (window ?s) = 40"
    unfolding ws by simp_all
  from x1 have "length (window ?s) = Suc (length (window w'))" by (metis length_Cons)
  with l40 have "length (window w') = 39" by simp
  moreover from x2 ps h0 have "pending w' = [0]" by simp
  moreover from x3 ss have "sent w' = [?m]" by simp
  ultimately have snd: "\<exists>w'. send ?s ?m = Some (Inr w') \<and>
            length (window w') = 39 \<and> pending w' = [0] \<and> sent w' = [?m]"
    using sw by blast
  have hx: "None \<notin> set (in_flight one_in_flight) \<and> distinct (in_flight one_in_flight) \<and>
      Some (sequence ?y) \<in> set (in_flight one_in_flight) \<and>
      (cb_thread one_in_flight = None \<or> cb_thread one_in_flight = Some (thread one_in_flight))"
    by (simp add: in_flight_one) (simp add: one_in_flight_def SelectiveRepeater_def)
  with wa obtain x' e where cx: "sr_cb one_in_flight ?y = Inr x'"
    and y1: "e \<in> set (pending one_in_flight)"
    and y2: "pending x' = remove1 e (pending one_in_flight)"
    and y3: "length (window x') = length (window one_in_flight) + 1"
    by blast
  have po: "pending one_in_flight = [0]" by (simp add: one_in_flight_def)
  from y1 y2 po have "pending x' = []" by simp
  moreover from y3 w1 have "length (window x') = 40" by simp
  ultimately have rep: "\<exists>x'. sr_cb one_in_flight ?y = Inr x' \<and>
            pending x' = [] \<and> length (window x') = 40"
    using cx by blast
  from f r reach p1 w1 p2 w2 snd rep show ?thesis by blast
qed

subsection \<open>Sequence numbers\<close>

lemma randint_range: "a \<le> b \<Longrightarrow> a \<le> randint a b e \<and> randint a b e \<le> b"
proof -
  assume "a \<le> b"
  then have "0 < b - a + 1" by simp
  then have "0 \<le> int e mod (b - a + 1)" "int e mod (b - a + 1) < b - a + 1"
    by (rule pos_mod_sign, rule pos_mod_bound)
  then show ?thesis unfolding randint_def by linarith
qed

lemma next_seq_iter: "seq (((snd \<circ> next_seq) ^^ n) s) = seq s + int n"
  by (induction n) (simp_all add: next_seq_def)

text \<open>
  Claim C9, as the code has it.  The counter starts at a random value between 0 and
  \<open>2^32 - 1\<close>; each call of \<open>next_seq\<close> returns the previous value plus one and stores it,
  so the n-th further call returns the start value plus n: an unbounded integer, which
  \<open>next_seq\<close> never reduces to 32 bits.
\<close>

theorem next_seq_counts_up:
  "0 \<le> seq (FileIO s e) \<and> seq (FileIO s e) \<le> 0xffffffff \<and>
   fst (next_seq s) = seq s + 1 \<and> seq (snd (next_seq s)) = seq s + 1 \<and>
   fst (next_seq (((snd \<circ> next_seq) ^^ n) s)) = seq s + int n + 1"
  using randint_range [of 0 "0xffffffff" e]
  by (simp add: FileIO_def next_seq_def next_seq_iter)

text \<open>
  Claim C9 as stated fails: from \<open>2^32 - 1\<close> the next sequence number is \<open>2^32\<close>, which
  is neither a 32-bit value nor the wrapped value 0.
\<close>

theorem next_seq_wrap_counterexample:
  "fst (next_seq (FileIO (quiet ()) 4294967295)) = 4294967296 \<and>
   fst (next_seq (FileIO (quiet ()) 4294967295)) \<noteq>
     (seq (FileIO (quiet ()) 4294967295) + 1) mod 2 ^ 32 \<and>
   \<not> fst (next_seq (FileIO (quiet ()) 4294967295)) < 2 ^ 32"
  by (simp add: next_seq_def FileIO_def randint_def)

subsection \<open>flush\<close>

lemma flush_returns_empty_aux:
  assumes "flush s = Some r"
  shows "\<forall>s'. r = Inr s' \<longrightarrow> pending s' = []"
proof (rule flush.raw_induct [OF _ assms], goal_cases)
  case (1 w s r)
  then show ?case
    by (fastforce split: if_splits sum.splits)
qed

text \<open>
  Claim C6.  When \<open>flush\<close> returns, nothing is in flight; with nothing in flight it
  returns at once, leaving the state as it is (no clock reading, no sleep); and while
  something is in flight each round runs the passive retry check, then sleeps.
\<close>

theorem flush_completeness:
  "(flush s = Some (Inr s') \<longrightarrow> pending s' = []) \<and>
   (pending t = [] \<longrightarrow> flush t = Some (Inr t)) \<and>
   (pending u \<noteq> [] \<longrightarrow>
      flush u =
        (case check_pending u of
           Inl e \<Rightarrow> Some (Inl e)
         | Inr u1 \<Rightarrow> (case sleep u1 of Inl e \<Rightarrow> Some (Inl e) | Inr u2 \<Rightarrow> flush u2)))"
proof (intro conjI impI)
  assume "flush s = Some (Inr s')"
  then show "pending s' = []" using flush_returns_empty_aux by blast
next
  assume "pending t = []"
  then show "flush t = Some (Inr t)" by (subst flush.simps) simp
next
  assume "pending u \<noteq> []"
  then show "flush u =
        (case check_pending u of
           Inl e \<Rightarrow> Some (Inl e)
         | Inr u1 \<Rightarrow> (case sleep u1 of Inl e \<Rightarrow> Some (Inl e) | Inr u2 \<Rightarrow> flush u2))"
    by (subst flush.simps) simp
qed

lemma check_acked: "check_pending acked = Inr (acked\<lparr>ticks := 2\<rparr>)"
  by (simp add: check_pending_def check_entry_def acked_def one_in_flight_def
      SBP_FILEIO_TIMEOUT_def SelectiveRepeater_def quiet_def)

lemma sleep_acked: "\<exists>s2. sleep (acked\<lparr>ticks := 2\<rparr>) = Inr s2 \<and> pending s2 = []"
  by (simp add: sleep_def blocked_def acked_def sr_cb_def one_in_flight_def
      return_pending_write_def verify_cb_thread_def SelectiveRepeater_def quiet_def)

theorem flush_completeness_witness:
  "\<exists>s'. pending acked \<noteq> [] \<and> flush acked = Some (Inr s') \<and> pending s' = []"
proof -
  from sleep_acked obtain s2 where sl: "sleep (acked\<lparr>ticks := 2\<rparr>) = Inr s2"
    and e: "pending s2 = []" by blast
  have ne: "pending acked \<noteq> []" by (simp add: acked_def one_in_flight_def)
  from flush_completeness [of acked s2 s2 acked] ne e
  have "flush acked = Some (Inr s2)" by (simp add: check_acked sl)
  with flush_completeness [of acked s2 s2 acked] ne show ?thesis by blast
qed

subsection \<open>The passive retry check\<close>

lemma check_loop_append:
  "check_loop s (xs @ ys) =
     (case check_loop s xs of Inl e \<Rightarrow> Inl e | Inr s1 \<Rightarrow> check_loop s1 ys)"
  by (induction xs arbitrary: s) (auto split: sum.splits)

text \<open>
  Claim C4.  Let the check reach an in-flight entry that is not complete and was sent
  more than 5.0 seconds before the clock reading taken for it.  With 3 or more tries the
  check raises the timeout error, and nothing is retransmitted for that entry.  With
  fewer, the entry gets one more try and that clock reading as its time, its request is
  handed to the link as it is, and the check goes on with the remaining entries.
\<close>

theorem passive_retry_check:
  assumes "pending s = pre @ r # post"
    and "check_loop s pre = Inr s1"
    and "complete (heap s1 r) \<noteq> Some True"
    and "time (heap s1 r) = Some t"
    and "tries (heap s1 r) = Some n"
    and "message (heap s1 r) = Some req"
    and "clock s1 (ticks s1) - t > 5"
  shows "(n \<ge> 3 \<longrightarrow> check_pending s = Inl Timed_out) \<and>
         (n < 3 \<longrightarrow>
            check_pending s =
              (case blocked
                      (s1\<lparr>ticks := Suc (ticks s1),
                          heap := (heap s1)
                            (r := (heap s1 r)\<lparr>tries := Some (n + 1),
                                                time := Some (clock s1 (ticks s1))\<rparr>),
                          sent := sent s1 @ [req]\<rparr>) of
                 Inl e \<Rightarrow> Inl e
               | Inr s2 \<Rightarrow> check_loop s2 post))"
proof -
  have loop: "check_pending s =
      (case check_entry s1 r of Inl e \<Rightarrow> Inl e | Inr s2 \<Rightarrow> check_loop s2 post)"
    using assms(1,2) by (simp add: check_pending_def check_loop_append)
  have hi: "check_entry s1 r = Inl Timed_out" if "n \<ge> 3"
    using assms(3-7) that
    by (simp add: check_entry_def Let_def SBP_FILEIO_TIMEOUT_def MINIMUM_RETRIES_def)
  have lo: "check_entry s1 r =
      blocked (s1\<lparr>ticks := Suc (ticks s1),
                 heap := (heap s1)
                   (r := (heap s1 r)\<lparr>tries := Some (n + 1), time := Some (clock s1 (ticks s1))\<rparr>),
                 sent := sent s1 @ [req]\<rparr>)" if "n < 3"
    using assms(3-7) that
    by (simp add: check_entry_def Let_def SBP_FILEIO_TIMEOUT_def MINIMUM_RETRIES_def
        record_retry_def transmit_def link_def)
  from loop hi lo show ?thesis by simp
qed

theorem passive_retry_check_witness:
  "check_pending (stale 3) = Inl Timed_out \<and>
   (\<exists>s'. check_pending (stale 0) = Inr s' \<and>
         tries (heap s' 0) = Some 1 \<and> time (heap s' 0) = Some 10 \<and>
         message (heap s' 0) = message (heap (stale 0) 0) \<and>
         sent s' = sent (stale 0) @ [MsgFileioWriteReq 1 [] 0 []])"
proof -
  have h: "pending (stale n) = [] @ 0 # []" "check_loop (stale n) [] = Inr (stale n)"
    "complete (heap (stale n) 0) \<noteq> Some True" "time (heap (stale n) 0) = Some 0"
    "tries (heap (stale n) 0) = Some n"
    "message (heap (stale n) 0) = Some (MsgFileioWriteReq 1 [] 0 [])"
    "clock (stale n) (ticks (stale n)) - 0 > 5" for n
    by (simp_all add: stale_def one_in_flight_def)
  have q: "inbox (stale n) = []" for n
    by (simp add: stale_def one_in_flight_def SelectiveRepeater_def quiet_def)
  from passive_retry_check [OF h, of 3] have a: "check_pending (stale 3) = Inl Timed_out"
    by simp
  from passive_retry_check [OF h, of 0] q [of 0]
  have "check_pending (stale 0) =
      Inr ((stale 0)\<lparr>ticks := Suc (ticks (stale 0)),
              heap := (heap (stale 0))
                (0 := (heap (stale 0) 0)\<lparr>tries := Some (0 + 1),
                        time := Some (clock (stale 0) (ticks (stale 0)))\<rparr>),
              sent := sent (stale 0) @ [MsgFileioWriteReq 1 [] 0 []]\<rparr>)"
    by (simp add: blocked_def)
  moreover have "clock (stale 0) (ticks (stale 0)) = 10" by (simp add: stale_def)
  ultimately show ?thesis using a by simp
qed

subsection \<open>readdir\<close>

lemma str_split_not_Nil: "str_split c xs \<noteq> []"
  by (induction xs) (auto split: list.splits)

lemma str_split_no_sep: "c \<notin> set y \<Longrightarrow> str_split c y = [y]"
  by (induction y) auto

lemma str_split_sep: "c \<notin> set n \<Longrightarrow> str_split c (n @ c # zs) = n # str_split c zs"
  by (induction n) (auto split: list.splits simp: str_split_not_Nil)

lemma str_split_terminated:
  assumes "\<forall>n\<in>set xs. c \<notin> set n" and "c \<notin> set y"
  shows "str_split c (concat (map (\<lambda>n. n @ [c]) xs) @ y) = xs @ [y]"
  using assms by (induction xs) (simp_all add: str_split_no_sep str_split_sep)

lemma str_rstrip_snoc:
  "str_rstrip c (xs @ [x]) = (if x = c then str_rstrip c xs else xs @ [x])"
  by (simp add: str_rstrip_def)

lemma str_rstrip_page:
  assumes "y \<noteq> []" and "c \<notin> set y"
  shows "str_rstrip c (pre @ y @ [c]) = pre @ y"
proof -
  from assms(1) obtain ys x where y: "y = ys @ [x]" by (cases y rule: rev_cases) auto
  with assms(2) have "x \<noteq> c" by auto
  then have "str_rstrip c ((pre @ ys) @ [x]) = (pre @ ys) @ [x]"
    by (simp only: str_rstrip_snoc if_False)
  moreover have "str_rstrip c ((pre @ y) @ [c]) = str_rstrip c (pre @ y)"
    by (simp only: str_rstrip_snoc if_True refl)
  ultimately show ?thesis by (simp add: y)
qed

lemma page_chunk:
  assumes "names \<noteq> []" and "last names \<noteq> []" and "\<forall>n\<in>set names. NUL \<notin> set n"
  shows "str_rstrip NUL (concat (map (\<lambda>n. n @ [NUL]) names)) \<noteq> [] \<and>
         str_split NUL (str_rstrip NUL (concat (map (\<lambda>n. n @ [NUL]) names))) = names"
proof -
  let ?pre = "concat (map (\<lambda>n. n @ [NUL]) (butlast names))"
  from assms(1) have nm: "names = butlast names @ [last names]" by simp
  have page: "concat (map (\<lambda>n. n @ [NUL]) names) = ?pre @ last names @ [NUL]"
    by (subst nm) (simp del: append_butlast_last_id)
  from assms(1,3) have l: "NUL \<notin> set (last names)" by (meson last_in_set)
  from assms(3) have b: "\<forall>n\<in>set (butlast names). NUL \<notin> set n"
    by (meson in_set_butlastD)
  have r: "str_rstrip NUL (concat (map (\<lambda>n. n @ [NUL]) names)) = ?pre @ last names"
    unfolding page using assms(2) l by (rule str_rstrip_page)
  have "str_split NUL (?pre @ last names) = butlast names @ [last names]"
    using b l by (rule str_split_terminated)
  with r nm assms(2) show ?thesis by simp
qed

lemma readdir_loop_timeout:
  assumes "waits s = [] \<or> (\<exists>ws. waits s = None # ws)"
  shows "readdir_loop s d files = Inl ReadDir_timeout"
  by (rule trans [OF readdir_loop.simps])
    (use assms in \<open>auto simp: next_seq_def link_def wait_def\<close>)

lemma readdir_loop_mismatch:
  assumes "waits s = Some reply # ws" and "sequence reply \<noteq> seq s + 1"
  shows "readdir_loop s d files = Inl ReadDir_mismatch"
  by (rule trans [OF readdir_loop.simps])
    (use assms in \<open>simp add: next_seq_def link_def wait_def\<close>)

lemma readdir_loop_last:
  assumes "waits s = Some reply # ws" and "sequence reply = seq s + 1"
    and "str_rstrip NUL (contents reply) = []"
  shows "readdir_loop s d files =
           Inr (files, s\<lparr>seq := seq s + 1,
                  sent := sent s @ [MsgFileioReadDirReq (seq s + 1) (int (length files)) d],
                  waits := ws\<rparr>)"
  by (rule trans [OF readdir_loop.simps])
    (use assms in \<open>simp add: next_seq_def link_def wait_def\<close>)

lemma readdir_loop_page:
  assumes "waits s = Some reply # ws" and "sequence reply = seq s + 1"
    and "str_rstrip NUL (contents reply) \<noteq> []"
  shows "readdir_loop s d files =
           readdir_loop
             (s\<lparr>seq := seq s + 1,
                sent := sent s @ [MsgFileioReadDirReq (seq s + 1) (int (length files)) d],
                waits := ws\<rparr>)
             d (files @ str_split NUL (str_rstrip NUL (contents reply)))"
  by (rule trans [OF readdir_loop.simps])
    (use assms in \<open>simp add: next_seq_def link_def wait_def\<close>)

lemma readdir_loop_pages:
  assumes "\<forall>names\<in>set pages. names \<noteq> [] \<and> last names \<noteq> [] \<and> (\<forall>n\<in>set names. NUL \<notin> set n)"
    and "waits s = dir_replies (seq s + 1) pages @ rest"
  shows "readdir_loop s d files =
           Inr (files @ concat pages,
                s\<lparr>seq := seq s + int (length pages) + 1,
                  sent := sent s @ dir_requests (seq s + 1) d (length files) pages,
                  waits := rest\<rparr>)"
  using assms
proof (induction pages arbitrary: s files)
  case Nil
  then have "waits s = Some (MsgFileioReadDirResp (seq s + 1) []) # rest" by simp
  from readdir_loop_last [OF this, of d files] show ?case
    by (simp add: str_rstrip_def)
next
  case (Cons names later)
  let ?s2 = "s\<lparr>seq := seq s + 1,
                 sent := sent s @ [MsgFileioReadDirReq (seq s + 1) (int (length files)) d],
                 waits := dir_replies (seq s + 1 + 1) later @ rest\<rparr>"
  from Cons.prems(1) have pc:
    "str_rstrip NUL (concat (map (\<lambda>n. n @ [NUL]) names)) \<noteq> []"
    "str_split NUL (str_rstrip NUL (concat (map (\<lambda>n. n @ [NUL]) names))) = names"
    using page_chunk [of names] by auto
  from Cons.prems(2)
  have "waits s = Some (MsgFileioReadDirResp (seq s + 1) (concat (map (\<lambda>n. n @ [NUL]) names))) #
      (dir_replies (seq s + 1 + 1) later @ rest)" by simp
  from readdir_loop_page [OF this, of d files] pc
  have step: "readdir_loop s d files = readdir_loop ?s2 d (files @ names)"
    by simp
  have "readdir_loop ?s2 d (files @ names) =
           Inr ((files @ names) @ concat later,
                ?s2\<lparr>seq := seq ?s2 + int (length later) + 1,
                  sent := sent ?s2 @ dir_requests (seq ?s2 + 1) d (length (files @ names)) later,
                  waits := rest\<rparr>)"
    by (rule Cons.IH) (use Cons.prems(1) in simp_all)
  with step show ?case by simp
qed

text \<open>
  Claim C7.  For a listing of any number of pages, each page one or more NUL-terminated
  names, answered with the sequence numbers of the requests and closed by a zero-length
  page: \<open>readdir\<close> returns the names of all pages in order, it asks for every page at
  the offset that is the number of names received so far, and it stops at the empty page.
  The witness is the listing of the pages \<open>a\0b\0\<close>, \<open>c\0\<close> and the empty page.
\<close>

theorem readdir_pagination:
  assumes "\<forall>names\<in>set pages. names \<noteq> [] \<and> last names \<noteq> [] \<and> (\<forall>n\<in>set names. NUL \<notin> set n)"
    and "waits s = dir_replies (seq s + 1) pages @ rest"
  shows "readdir s d =
           Inr (concat pages,
                s\<lparr>seq := seq s + int (length pages) + 1,
                  sent := sent s @ dir_requests (seq s + 1) d 0 pages,
                  waits := rest\<rparr>)"
  using readdir_loop_pages [OF assms, of d "[]"] by (simp add: readdir_def)

theorem readdir_pagination_witness:
  "map_sum id fst
     (readdir ((quiet ())\<lparr>waits :=
        [Some (MsgFileioReadDirResp 1 [CHR ''a'', NUL, CHR ''b'', NUL]),
         Some (MsgFileioReadDirResp 2 [CHR ''c'', NUL]),
         Some (MsgFileioReadDirResp 3 [])]\<rparr>) ''.'') = Inr [''a'', ''b'', ''c''] \<and>
   map_sum id (sent \<circ> snd)
     (readdir ((quiet ())\<lparr>waits :=
        [Some (MsgFileioReadDirResp 1 [CHR ''a'', NUL, CHR ''b'', NUL]),
         Some (MsgFileioReadDirResp 2 [CHR ''c'', NUL]),
         Some (MsgFileioReadDirResp 3 [])]\<rparr>) ''.'') =
     Inr [MsgFileioReadDirReq 1 0 ''.'', MsgFileioReadDirReq 2 2 ''.'',
          MsgFileioReadDirReq 3 3 ''.'']"
proof -
  let ?s = "(quiet ())\<lparr>waits :=
        [Some (MsgFileioReadDirResp 1 [CHR ''a'', NUL, CHR ''b'', NUL]),
         Some (MsgFileioReadDirResp 2 [CHR ''c'', NUL]),
         Some (MsgFileioReadDirResp 3 [])]\<rparr>"
  let ?pages = "[[''a'', ''b''], [''c'']]"
  have h: "\<forall>names\<in>set ?pages. names \<noteq> [] \<and> last names \<noteq> [] \<and> (\<forall>n\<in>set names. NUL \<notin> set n)"
    "waits ?s = dir_replies (seq ?s + 1) ?pages @ []"
    by (simp_all add: quiet_def)
  from readdir_pagination [OF h, of "''.''"] show ?thesis
    by (simp add: quiet_def)
qed

lemma readdir_loop_fault:
  "waits s = ws \<Longrightarrow> readdir_loop s d files = Inl e \<longleftrightarrow> first_fault (seq s + 1) ws = Some e"
proof (induction ws arbitrary: s files)
  case Nil
  then show ?case using readdir_loop_timeout [of s d files] by auto
next
  case (Cons w ws)
  show ?case
  proof (cases w)
    case None
    with Cons.prems show ?thesis using readdir_loop_timeout [of s d files] by auto
  next
    case (Some reply)
    with Cons.prems have w: "waits s = Some reply # ws" by simp
    consider "sequence reply \<noteq> seq s + 1"
      | "sequence reply = seq s + 1" "str_rstrip NUL (contents reply) = []"
      | "sequence reply = seq s + 1" "str_rstrip NUL (contents reply) \<noteq> []"
      by blast
    then show ?thesis
    proof cases
      case 1
      with readdir_loop_mismatch [OF w 1, of d files] Some show ?thesis by auto
    next
      case 2
      with readdir_loop_last [OF w 2, of d files] Some show ?thesis by simp
    next
      case 3
      let ?s2 = "s\<lparr>seq := seq s + 1,
                sent := sent s @ [MsgFileioReadDirReq (seq s + 1) (int (length files)) d],
                waits := ws\<rparr>"
      have "readdir_loop ?s2 d (files @ str_split NUL (str_rstrip NUL (contents reply))) = Inl e
        \<longleftrightarrow> first_fault (seq ?s2 + 1) ws = Some e"
        by (rule Cons.IH) simp
      with readdir_loop_page [OF w 3, of d files] 3 Some show ?thesis by simp
    qed
  qed
qed

lemma good_pages_0: "good_pages q ws 0"
  by (simp add: good_pages_def)

lemma good_pages_Suc:
  "good_pages q (w # ws) (Suc i) \<longleftrightarrow>
     (\<exists>reply. w = Some reply \<and> sequence reply = q \<and> str_rstrip NUL (contents reply) \<noteq> []) \<and>
     good_pages (q + 1) ws i"
proof -
  have "(\<forall>j<Suc i. P j) \<longleftrightarrow> P 0 \<and> (\<forall>j<i. P (Suc j))" for P
    by (metis less_Suc_eq_0_disj Suc_less_eq zero_less_Suc)
  then show ?thesis
    by (simp add: good_pages_def ac_simps)
qed

lemma first_fault_timeout:
  "first_fault q ws = Some ReadDir_timeout \<longleftrightarrow>
     (\<exists>i\<le>length ws. good_pages q ws i \<and> (i = length ws \<or> ws ! i = None))"
proof (induction ws arbitrary: q)
  case Nil
  then show ?case by (simp add: good_pages_0)
next
  case (Cons w ws)
  have ex: "(\<exists>i\<le>length (w # ws). P i) \<longleftrightarrow> P 0 \<or> (\<exists>i\<le>length ws. P (Suc i))" for P
    by (metis Suc_le_mono length_Cons not0_implies_Suc zero_le)
  show ?case
  proof (cases w)
    case None
    then show ?thesis by (auto simp: good_pages_0 intro!: exI [of _ 0])
  next
    case (Some reply)
    then show ?thesis
      unfolding ex good_pages_Suc by (simp add: Cons.IH good_pages_0)
  qed
qed

lemma first_fault_mismatch:
  "first_fault q ws = Some ReadDir_mismatch \<longleftrightarrow>
     (\<exists>i<length ws. good_pages q ws i \<and>
        (\<exists>reply. ws ! i = Some reply \<and> sequence reply \<noteq> q + int i))"
proof (induction ws arbitrary: q)
  case Nil
  then show ?case by simp
next
  case (Cons w ws)
  have ex: "(\<exists>i<length (w # ws). P i) \<longleftrightarrow> P 0 \<or> (\<exists>i<length ws. P (Suc i))" for P
    by (metis Suc_less_eq length_Cons not0_implies_Suc zero_less_Suc)
  show ?case
  proof (cases w)
    case None
    then show ?thesis unfolding ex good_pages_Suc by simp
  next
    case (Some reply)
    then show ?thesis
      unfolding ex good_pages_Suc by (auto simp: Cons.IH good_pages_0 add.assoc)
  qed
qed

lemma first_fault_cases:
  "first_fault q ws = Some e \<Longrightarrow> e = ReadDir_timeout \<or> e = ReadDir_mismatch"
  by (induction q ws rule: first_fault.induct) (auto split: if_splits)

text \<open>
  Claim C8.  \<open>readdir\<close> raises exactly in two cases, and then returns no list at all:
  the timeout error, when after some number of good pages the wait for the next reply
  times out; the mismatch error, when after some number of good pages a reply arrives
  whose sequence number is not that of the outstanding request.
\<close>

theorem readdir_errors:
  "(readdir s d = Inl ReadDir_timeout \<longleftrightarrow>
      (\<exists>i\<le>length (waits s). good_pages (seq s + 1) (waits s) i \<and>
         (i = length (waits s) \<or> waits s ! i = None))) \<and>
   (readdir s d = Inl ReadDir_mismatch \<longleftrightarrow>
      (\<exists>i<length (waits s). good_pages (seq s + 1) (waits s) i \<and>
         (\<exists>reply. waits s ! i = Some reply \<and> sequence reply \<noteq> seq s + 1 + int i))) \<and>
   (\<forall>e. readdir s d = Inl e \<longrightarrow> e = ReadDir_timeout \<or> e = ReadDir_mismatch)"
  unfolding readdir_def
  using readdir_loop_fault [OF refl, of s d "[]"] first_fault_cases
  by (simp add: first_fault_timeout first_fault_mismatch)


theorem readdir_errors_witness:
  "readdir ((quiet ())\<lparr>waits := [Some (MsgFileioReadDirResp 1 [CHR ''a'', NUL])]\<rparr>) ''.'' =
     Inl ReadDir_timeout \<and>
   readdir ((quiet ())\<lparr>waits := [Some (MsgFileioReadDirResp 7 [CHR ''a'', NUL])]\<rparr>) ''.'' =
     Inl ReadDir_mismatch"
proof -
  let ?t = "(quiet ())\<lparr>waits := [Some (MsgFileioReadDirResp 1 [CHR ''a'', NUL])]\<rparr>"
  let ?m = "(quiet ())\<lparr>waits := [Some (MsgFileioReadDirResp 7 [CHR ''a'', NUL])]\<rparr>"
  have "good_pages (seq ?t + 1) (waits ?t) 1 \<and> 1 = length (waits ?t)"
    by (simp add: good_pages_def quiet_def str_rstrip_def)
  then have t: "\<exists>i\<le>length (waits ?t). good_pages (seq ?t + 1) (waits ?t) i \<and>
      (i = length (waits ?t) \<or> waits ?t ! i = None)"
    by (intro exI [of _ 1]) simp
  have "good_pages (seq ?m + 1) (waits ?m) 0 \<and>
      (\<exists>reply. waits ?m ! 0 = Some reply \<and> sequence reply \<noteq> seq ?m + 1 + int 0)"
    by (simp add: good_pages_def quiet_def)
  then have m: "\<exists>i<length (waits ?m). good_pages (seq ?m + 1) (waits ?m) i \<and>
      (\<exists>reply. waits ?m ! i = Some reply \<and> sequence reply \<noteq> seq ?m + 1 + int i)"
    by (intro exI [of _ 0]) simp
  from readdir_errors [of ?t "''.''"] t have "readdir ?t ''.'' = Inl ReadDir_timeout"
    by blast
  moreover from readdir_errors [of ?m "''.''"] m have "readdir ?m ''.'' = Inl ReadDir_mismatch"
    by blast
  ultimately show ?thesis by blast
qed

subsection \<open>write\<close>

lemma chunks_Nil: "chunks k [] = []"
  by (simp add: chunks.simps)

lemma chunks_Cons: "0 < k \<Longrightarrow> xs \<noteq> [] \<Longrightarrow> chunks k xs = take k xs # chunks k (drop k xs)"
  by (subst chunks.simps) simp

lemma concat_chunks: "0 < k \<Longrightarrow> concat (chunks k xs) = xs"
proof (induction k xs rule: chunks.induct)
  case (1 k xs)
  show ?case
  proof (cases "xs = []")
    case True
    then show ?thesis by (simp add: chunks_Nil)
  next
    case False
    with "1.prems" have c: "chunks k xs = take k xs # chunks k (drop k xs)"
      by (simp add: chunks_Cons)
    from "1.IH" False "1.prems" have "concat (chunks k (drop k xs)) = drop k xs" by simp
    with c show ?thesis by simp
  qed
qed

lemma chunks_bounds: "c \<in> set (chunks k xs) \<Longrightarrow> c \<noteq> [] \<and> length c \<le> k"
proof (induction k xs rule: chunks.induct)
  case (1 k xs)
  show ?case
  proof (cases "k = 0 \<or> xs = []")
    case True
    with "1.prems" show ?thesis by (simp add: chunks.simps)
  next
    case False
    then have c: "chunks k xs = take k xs # chunks k (drop k xs)"
      by (simp add: chunks_Cons)
    from "1.prems" c consider "c = take k xs" | "c \<in> set (chunks k (drop k xs))" by auto
    then show ?thesis
    proof cases
      case 1
      with False show ?thesis by simp
    next
      case 2
      with "1.IH" False show ?thesis by blast
    qed
  qed
qed

lemma chunks_full:
  "Suc i < length (chunks k xs) \<Longrightarrow> length (chunks k xs ! i) = k"
proof (induction k xs arbitrary: i rule: chunks.induct)
  case (1 k xs)
  show ?case
  proof (cases "k = 0 \<or> xs = []")
    case True
    with "1.prems" show ?thesis by (simp add: chunks.simps)
  next
    case False
    then have c: "chunks k xs = take k xs # chunks k (drop k xs)" by (simp add: chunks_Cons)
    show ?thesis
    proof (cases i)
      case 0
      with "1.prems" c have "chunks k (drop k xs) \<noteq> []" by auto
      then have "drop k xs \<noteq> []" by (auto simp: chunks_Nil)
      then show ?thesis using c 0 by simp
    next
      case (Suc j)
      with "1.prems" c have "Suc j < length (chunks k (drop k xs))" by simp
      with "1.IH" [OF False] have "length (chunks k (drop k xs) ! j) = k" by blast
      with c Suc show ?thesis by simp
    qed
  qed
qed

lemma chunks_600:
  assumes "length xs = 600"
  shows "length (chunks 245 xs) = 3"
proof -
  from assms have a: "chunks 245 xs = take 245 xs # chunks 245 (drop 245 xs)"
    by (intro chunks_Cons) auto
  from assms have b: "chunks 245 (drop 245 xs) =
      take 245 (drop 245 xs) # chunks 245 (drop 245 (drop 245 xs))"
    by (intro chunks_Cons) auto
  from assms have c: "chunks 245 (drop 245 (drop 245 xs)) =
      take 245 (drop 245 (drop 245 xs)) # chunks 245 (drop 245 (drop 245 (drop 245 xs)))"
    by (intro chunks_Cons) auto
  from assms have d: "drop 245 (drop 245 (drop 245 xs)) = []" by simp
  show ?thesis unfolding a b c d by (simp add: chunks_Nil)
qed

lemma py_slice_chunk:
  assumes "0 \<le> ofs" and "nat ofs < length dat" and "2 \<le> c"
  shows "py_slice dat ofs (ofs + c - 1) = take (nat (c - 1)) (drop (nat ofs) dat)"
proof -
  have l: "py_index (length dat) ofs = nat ofs"
    using assms by (simp add: py_index_def)
  have h: "py_index (length dat) (ofs + c - 1) = min (nat ofs + nat (c - 1)) (length dat)"
    using assms by (simp add: py_index_def nat_add_distrib)
  have "take (min (nat ofs + nat (c - 1)) (length dat) - nat ofs) (drop (nat ofs) dat) =
      take (nat (c - 1)) (drop (nat ofs) dat)"
    using assms by (cases "nat ofs + nat (c - 1) \<le> length dat") (simp_all add: min_def)
  then show ?thesis by (simp add: py_slice_def l h)
qed

lemma write_loop_chunks:
  assumes "2 \<le> c" and "0 \<le> ofs"
  shows "write_loop s fname dat ofs c progress_cb =
           write_chunks s fname ofs progress_cb (chunks (nat (c - 1)) (drop (nat ofs) dat))"
  using assms(2)
proof (induction "length dat - nat ofs" arbitrary: s ofs rule: less_induct)
  case less
  show ?case
  proof (cases "ofs < int (length dat)")
    case False
    with less.prems have "drop (nat ofs) dat = []" by simp
    with False show ?thesis
      by (subst write_loop.simps) (simp add: chunks_Nil)
  next
    case True
    let ?k = "nat (c - 1)"
    define chunk where "chunk = take ?k (drop (nat ofs) dat)"
    from True less.prems have lt: "nat ofs < length dat" by linarith
    from assms(1) have k: "0 < ?k" by simp
    from lt have ne: "drop (nat ofs) dat \<noteq> []" by simp
    have sl: "py_slice dat ofs (ofs + c - 1) = chunk"
      unfolding chunk_def using less.prems lt assms(1) by (rule py_slice_chunk)
    have len: "length chunk = min ?k (length dat - nat ofs)" by (simp add: chunk_def)
    with k lt have pos: "0 < length chunk" by simp
    have dr: "drop ?k (drop (nat ofs) dat) = drop (nat (ofs + int (length chunk))) dat"
    proof (cases "?k \<le> length dat - nat ofs")
      case True
      with len less.prems show ?thesis by (simp add: nat_add_distrib add.commute)
    next
      case False
      with len less.prems show ?thesis by (simp add: nat_add_distrib)
    qed
    have ch: "chunks ?k (drop (nat ofs) dat) =
        chunk # chunks ?k (drop (nat (ofs + int (length chunk))) dat)"
      using chunks_Cons [OF k ne] dr by (simp add: chunk_def)
    have ih: "write_loop s' fname dat (ofs + int (length chunk)) c progress_cb =
        write_chunks s' fname (ofs + int (length chunk)) progress_cb
          (chunks ?k (drop (nat (ofs + int (length chunk))) dat))" for s'
    proof (rule less.hyps)
      from less.prems have "nat (ofs + int (length chunk)) = nat ofs + length chunk"
        by (simp add: nat_add_distrib)
      with pos lt
      show "length dat - nat (ofs + int (length chunk)) < length dat - nat ofs"
        by linarith
      from less.prems show "0 \<le> ofs + int (length chunk)" by simp
    qed
    show ?thesis
      unfolding ch
      by (subst write_loop.simps)
        (simp add: True sl next_seq_def ih Let_def split: option.splits sum.splits)
  qed
qed

text \<open>
  What the loop does for a file name of at most 244 octets and a write from offset 0:
  the data is cut into consecutive non-empty chunks, none longer than
  \<open>MAX_PAYLOAD_SIZE - len(filename) - 9\<close>, all but the last of one length and the last no
  longer; the chunks put together are the data, and the write is the sending of these
  chunks in order, each at the offset where the previous one ended, followed by the flush.
\<close>

lemma write_partitions_data:
  assumes "length fname \<le> 244"
  shows "\<exists>cs. concat cs = dat \<and>
           (\<forall>c\<in>set cs. c \<noteq> [] \<and> int (length c) \<le> MAX_PAYLOAD_SIZE - int (length fname) - 9) \<and>
           (\<forall>i. Suc i < length cs \<longrightarrow> length (cs ! i) = length (hd cs)) \<and>
           (cs \<noteq> [] \<longrightarrow> length (last cs) \<le> length (hd cs)) \<and>
           (fname = [] \<and> length dat = 600 \<longrightarrow> length cs = 3) \<and>
           fio_write s fname dat 0 trunc progress_cb =
             (case write_chunks (SelectiveRepeater (if trunc then remove s fname else s) None)
                     fname 0 progress_cb cs of
                None \<Rightarrow> None
              | Some (Inl e) \<Rightarrow> Some (Inl e)
              | Some (Inr s1) \<Rightarrow> flush s1)"
proof -
  define c where "c = MAX_PAYLOAD_SIZE - int (length fname) - 9"
  define k where "k = nat (c - 1)"
  define cs where "cs = chunks k dat"
  from assms have c2: "2 \<le> c" by (simp add: c_def MAX_PAYLOAD_SIZE_def)
  then have k: "0 < k" "int k \<le> c" by (simp_all add: k_def)
  have 1: "concat cs = dat" unfolding cs_def using k(1) by (rule concat_chunks)
  have 2: "\<forall>x\<in>set cs. x \<noteq> [] \<and> int (length x) \<le> c"
    using chunks_bounds [of _ k dat] k(2) unfolding cs_def by fastforce
  have full: "length (cs ! i) = k" if "Suc i < length cs" for i
    using that unfolding cs_def by (rule chunks_full)
  have hd: "length (hd cs) = k" if "Suc i < length cs" for i
  proof -
    from that have "Suc 0 < length cs" by simp
    then have "length (cs ! 0) = k" by (rule full)
    moreover from that have "cs \<noteq> []" by auto
    ultimately show ?thesis by (simp add: hd_conv_nth)
  qed
  have 3: "\<forall>i. Suc i < length cs \<longrightarrow> length (cs ! i) = length (hd cs)"
    using full hd by simp
  have 4: "cs \<noteq> [] \<longrightarrow> length (last cs) \<le> length (hd cs)"
  proof
    assume ne: "cs \<noteq> []"
    show "length (last cs) \<le> length (hd cs)"
    proof (cases "Suc 0 < length cs")
      case True
      from ne have "last cs \<in> set cs" by simp
      then have "length (last cs) \<le> k" using chunks_bounds [of _ k dat] by (simp add: cs_def)
      with hd [OF True] show ?thesis by simp
    next
      case False
      with ne have "length cs = 1" by (cases cs) auto
      then obtain x where "cs = [x]" by (cases cs) auto
      then show ?thesis by simp
    qed
  qed
  have 5: "fname = [] \<and> length dat = 600 \<longrightarrow> length cs = 3"
    by (auto simp: cs_def k_def c_def MAX_PAYLOAD_SIZE_def chunks_600)
  have "write_loop s' fname dat 0 c progress_cb = write_chunks s' fname 0 progress_cb cs" for s'
    using write_loop_chunks [OF c2, of 0 s' fname dat progress_cb]
    by (simp add: cs_def k_def)
  then have 6: "fio_write s fname dat 0 trunc progress_cb =
             (case write_chunks (SelectiveRepeater (if trunc then remove s fname else s) None)
                     fname 0 progress_cb cs of
                None \<Rightarrow> None
              | Some (Inl e) \<Rightarrow> Some (Inl e)
              | Some (Inr s1) \<Rightarrow> flush s1)"
    by (simp add: fio_write_def Let_def c_def)
  from 1 2 3 4 5 6 show ?thesis unfolding c_def by blast
qed

lemma chunks_250:
  "chunks 245 (replicate 250 x) = [replicate 245 x, replicate 5 x]"
proof -
  have a: "chunks 245 (replicate 250 x) = take 245 (replicate 250 x) # chunks 245 (drop 245 (replicate 250 x))"
    by (intro chunks_Cons) auto
  have b: "chunks 245 (replicate 5 x) = take 245 (replicate 5 x) # chunks 245 (drop 245 (replicate 5 x))"
    by (intro chunks_Cons) auto
  show ?thesis unfolding a by (simp add: b chunks_Nil)
qed

lemma upt40: "[0..<40] = 0 # 1 # [2..<40]"
  by (simp add: upt_conv_Cons)

lemma write_loop_stuck:
  assumes "0 \<le> ofs" and "ofs < int (length dat)"
  shows "write_loop s fname dat ofs 1 progress_cb =
           (case send (s\<lparr>seq := seq s + 1\<rparr>)
                   (MsgFileioWriteReq (seq s + 1) (fname @ [NUL]) ofs []) of
              None \<Rightarrow> None
            | Some (Inl e) \<Rightarrow> Some (Inl e)
            | Some (Inr s2) \<Rightarrow>
                write_loop
                  (case progress_cb of
                     None \<Rightarrow> s2
                   | Some f \<Rightarrow> s2\<lparr>closure := f ofs (closure s2)\<rparr>)
                  fname dat ofs 1 progress_cb)"
proof -
  have sl: "py_slice dat ofs (ofs + 1 - 1) = []"
    by (simp add: py_slice_def)
  show ?thesis
    by (rule trans [OF write_loop.simps])
      (use assms sl in \<open>simp add: next_seq_def Let_def split: option.splits sum.splits\<close>)
qed

text \<open>
  Claim C2 fails on the code.  With an empty file name the chunk size is
  \<open>MAX_PAYLOAD_SIZE - 0 - 9 = 246\<close>, and of 250 octets the claim has the first request carry
  246 and the second, at offset 246, the other 4.  The loop slices
  \<open>data[offset:offset + chunksize - 1]\<close>, one octet short of the chunk size (the clamped
  \<open>end_index\<close> is computed and never used): the first request carries 245 octets and the
  second, at offset 245, the other 5.
\<close>

theorem write_chunk_one_short:
  "map_option (map_sum id sent)
     (fio_write two_acks [] (replicate 250 (CHR ''a'')) 0 True None) =
     Some (Inr [MsgFileioRemove [],
                MsgFileioWriteReq 1 (NUL # replicate 245 (CHR ''a'')) 0 [],
                MsgFileioWriteReq 2 (NUL # replicate 5 (CHR ''a'')) 245 []]) \<and>
   MAX_PAYLOAD_SIZE - int (length ([] :: string)) - 9 = 246"
proof -
  have "write_loop s [] (replicate 250 (CHR ''a'')) 0 246 None =
      write_chunks s [] 0 None [replicate 245 (CHR ''a''), replicate 5 (CHR ''a'')]" for s :: "unit state"
    using write_loop_chunks [of 246 0 s "[]" "replicate 250 (CHR ''a'')" None]
    by (simp add: chunks_250)
  then show ?thesis
    by (simp add: fio_write_def MAX_PAYLOAD_SIZE_def two_acks_def quiet_def remove_def link_def
        SelectiveRepeater_def SBP_FILEIO_WINDOW_SIZE_def upt40 send_def wait_window_free
        fetch_pending_write_def verify_link_thread_def track_def transmit_def blocked_def
        sr_cb_def return_pending_write_def verify_cb_thread_def invalidate_def flush_idle)
qed

subsection \<open>read\<close>

lemma read_loop_done:
  "closure_done (closure s) \<Longrightarrow> read_loop s fname ofs c = Some (Inr s)"
  by (subst read_loop.simps) simp

lemma read_loop_more:
  "\<not> closure_done (closure s) \<Longrightarrow>
   read_loop s fname ofs c =
     (case send (s\<lparr>seq := seq s + 1\<rparr>) (MsgFileioReadReq (seq s + 1) ofs c fname) of
        None \<Rightarrow> None
      | Some (Inl e) \<Rightarrow> Some (Inl e)
      | Some (Inr s2) \<Rightarrow> read_loop s2 fname (ofs + c) c)"
  by (subst read_loop.simps) (simp add: next_seq_def)

lemmas eval_defs =
  read_def MAX_PAYLOAD_SIZE_def reading_def quiet_def
  SelectiveRepeater_def SBP_FILEIO_WINDOW_SIZE_def upt40 send_def wait_window_free
  fetch_pending_write_def verify_link_thread_def track_def transmit_def link_def blocked_def
  sr_cb_def return_pending_write_def verify_cb_thread_def invalidate_def
  read_cb_def py_slice_assign_def py_index_def Let_def

text \<open>
  With the replies in the order of the requests, \<open>read\<close> returns the file: here one of
  251 octets \<open>A\<close> followed by ten digits.
\<close>

lemma read_in_order:
  "map_option (map_sum id fst)
     (read (reading [[MsgFileioReadResp 1 (replicate 251 (CHR ''A''))],
                     [MsgFileioReadResp 2 ''0123456789'']]) ''f'') =
     Some (Inr (replicate 251 (CHR ''A'') @ ''0123456789''))"
  by (simp add: eval_defs read_loop_more read_loop_done)

text \<open>
  Claim C3 fails on the code.  The same file, but the reply to the second request (the
  short one, ten octets at offset 251) arrives before the reply to the first: the
  callback zero-fills the first 251 octets and sets \<open>done\<close>, the loop ends, and \<open>read\<close>
  returns at once, without waiting for the request still in flight (\<open>write\<close> calls
  \<open>flush\<close>; \<open>read\<close> does not).  The buffer returned has zeros where the file has the
  octets \<open>A\<close>.
\<close>

theorem read_overtaken_reply:
  "map_option (map_sum id fst)
     (read (reading [[], [MsgFileioReadResp 2 ''0123456789''],
                     [MsgFileioReadResp 1 (replicate 251 (CHR ''A''))]]) ''f'') =
     Some (Inr (replicate 251 NUL @ ''0123456789'')) \<and>
   replicate 251 NUL @ ''0123456789'' \<noteq> replicate 251 (CHR ''A'') @ ''0123456789''"
  by (simp add: eval_defs read_loop_more read_loop_done)

text \<open>
  A reply to a request beyond the end of the file, handled before \<open>read\<close> returns,
  pads the buffer with zeros up to the offset of that request.
\<close>

lemma read_padded:
  "map_option (map_sum id fst)
     (read (reading [[], [MsgFileioReadResp 1 ''0123456789'', MsgFileioReadResp 2 []]]) ''f'') =
     Some (Inr (''0123456789'' @ replicate 241 NUL))"
  by (simp add: eval_defs read_loop_more read_loop_done)

end
